theory Spec2Isabelle
  imports Main "HOL-Library.Word" "HOL-Library.Signed_Division"
begin

section \<open>Go values used by the sink\<close>

text \<open>
  Go's \<open>int\<close> is taken at its 64-bit width: \<open>+\<close> and \<open>*\<close> wrap around, comparisons
  are signed, and \<open>/\<close> truncates towards zero and panics on a zero divisor.
  A byte slice is a window \<open>(ptr, len, cap)\<close> on a backing array; backing arrays
  live in an explicit store, a list in the order of their allocation, so that
  "reused in place" and "freshly allocated" are different results.
  An allocation panics where the requested size is negative or above the
  runtime's bound \<open>maxAlloc\<close>, a parameter of the runtime (\<open>2^48\<close> bytes on
  64-bit Linux). Running out of memory below that bound is not modelled.
\<close>

type_synonym byte = "8 word"
type_synonym goint = "64 word"

datatype error = ErrExportFuncNotSet | ErrNegativeOrZeroInterval

datatype panic =
    IntegerDivideByZero
  | MakesliceLenOutOfRange
  | MakesliceCapOutOfRange
  | GrowsliceLenOutOfRange
  | NilPointerDereference

definition maxInt :: nat where
  "maxInt = 2 ^ 63 - 1"

record slice =
  ptr :: nat
  slen :: nat
  scap :: nat

text \<open>
  The runtime around the sink: the store of backing arrays (a slice's \<open>ptr\<close>
  is an index into it, and an allocation adds an array at the end), the
  capacity the runtime picks when \<open>append\<close> has to grow (\<open>growth old needed\<close>,
  a parameter: the Go runtime decides it), the largest size the runtime
  allocates (\<open>maxAlloc\<close>, a parameter as well), the goroutines started by
  \<open>go e.export(data)\<close> in the order of their start, and the periods of the
  tickers started by \<open>IntervalExport\<close> (a \<open>time.Duration\<close> is an \<open>int64\<close>).
\<close>

record 'f rt =
  arrays :: "byte list list"
  growth :: "nat \<Rightarrow> nat \<Rightarrow> nat"
  maxAlloc :: nat
  spawned :: "('f \<times> slice) list"
  tickers :: "goint list"

definition array_of :: "'f rt \<Rightarrow> nat \<Rightarrow> byte list" where
  "array_of r p = (if p < length (arrays r) then arrays r ! p else [])"

text \<open>The bytes a slice shows: the first \<open>len\<close> cells of its backing array.\<close>

definition elems :: "'f rt \<Rightarrow> slice \<Rightarrow> byte list" where
  "elems r s = take (slen s) (array_of r (ptr s))"

definition go_len :: "slice \<Rightarrow> goint" where
  "go_len s = of_nat (slen s)"

definition go_div :: "goint \<Rightarrow> goint \<Rightarrow> panic + goint" where
  "go_div a b =
     (if b = 0 then Inl IntegerDivideByZero
      else Inr (word_of_int (sint a sdiv sint b)))"

text \<open>
  \<open>make([]byte, n, c)\<close>: a zeroed array of \<open>c\<close> cells, never seen before. As
  in the runtime's \<open>makeslice\<close>, a capacity that is negative or above
  \<open>maxAlloc\<close>, or a length that is negative or above the capacity, panics:
  with "len out of range" when the length alone is negative or above
  \<open>maxAlloc\<close>, with "cap out of range" otherwise.
\<close>

definition go_make :: "goint \<Rightarrow> goint \<Rightarrow> 'f rt \<Rightarrow> panic + (slice \<times> 'f rt)" where
  "go_make n c r =
     (if c <s 0 \<or> maxAlloc r < nat (sint c) \<or> n <s 0 \<or> c <s n then
        (if n <s 0 \<or> maxAlloc r < nat (sint n) then Inl MakesliceLenOutOfRange
         else Inl MakesliceCapOutOfRange)
      else Inr (\<lparr>ptr = length (arrays r), slen = nat (sint n), scap = nat (sint c)\<rparr>,
                r\<lparr>arrays := arrays r @ [replicate (nat (sint c)) 0]\<rparr>))"

text \<open>Overwrite the cells of \<open>a\<close> from offset \<open>off\<close> with \<open>xs\<close>.\<close>

definition store :: "byte list \<Rightarrow> nat \<Rightarrow> byte list \<Rightarrow> byte list" where
  "store a off xs = take off a @ xs @ drop (off + length xs) a"

text \<open>\<open>copy(dst, src)\<close> copies \<open>min(len(dst), len(src))\<close> bytes.\<close>

definition go_copy :: "slice \<Rightarrow> slice \<Rightarrow> 'f rt \<Rightarrow> 'f rt" where
  "go_copy dst src r =
     r\<lparr>arrays := (arrays r)[ptr dst :=
          store (array_of r (ptr dst)) 0 (take (min (slen dst) (slen src)) (elems r src))]\<rparr>"

text \<open>
  The capacity of a grown slice: what the runtime's policy picks when that is
  at least the needed length and within \<open>int\<close> and \<open>maxAlloc\<close>, the needed
  length otherwise.
\<close>

definition newcap :: "'f rt \<Rightarrow> nat \<Rightarrow> nat \<Rightarrow> nat" where
  "newcap r old needed =
     (if needed \<le> growth r old needed \<and> growth r old needed \<le> maxInt
         \<and> growth r old needed \<le> maxAlloc r
      then growth r old needed else needed)"

text \<open>
  \<open>append(s, data...)\<close>: writes behind \<open>len(s)\<close> in place when the capacity
  suffices, and moves to a new, larger array otherwise; the runtime's
  \<open>growslice\<close> panics ("len out of range") when the new length overflows
  \<open>int\<close> or is above \<open>maxAlloc\<close>. A policy that would pick a capacity above
  \<open>maxAlloc\<close> for a length within it is not modelled: \<open>newcap\<close> then gives
  the needed length.
\<close>

definition go_append :: "slice \<Rightarrow> byte list \<Rightarrow> 'f rt \<Rightarrow> panic + (slice \<times> 'f rt)" where
  "go_append s data r =
     (let n = slen s + length data in
      if maxInt < n then Inl GrowsliceLenOutOfRange
      else if n \<le> scap s then
        Inr (s\<lparr>slen := n\<rparr>,
             r\<lparr>arrays := (arrays r)[ptr s := store (array_of r (ptr s)) (slen s) data]\<rparr>)
      else if maxAlloc r < n then Inl GrowsliceLenOutOfRange
      else
        (let c = newcap r (scap s) n in
         Inr (\<lparr>ptr = length (arrays r), slen = n, scap = c\<rparr>,
              r\<lparr>arrays := arrays r @ [elems r s @ data @ replicate (c - n) 0]\<rparr>)))"

text \<open>\<open>go f(data)\<close>: the call is handed to a new goroutine; the caller goes on.\<close>

definition go_spawn :: "'f \<Rightarrow> slice \<Rightarrow> 'f rt \<Rightarrow> 'f rt" where
  "go_spawn f data r = r\<lparr>spawned := spawned r @ [(f, data)]\<rparr>"

section \<open>The sink (evexi.go)\<close>

text \<open>
  The \<open>Evexi\<close> struct. Every exported method holds \<open>mux\<close> for its whole body, so
  each is one atomic step on the pair of the struct and the runtime.
\<close>

record 'f Evexi =
  buffer :: slice
  export :: 'f
  bufferMaxSize :: goint
  totalBufSize :: goint
  bufCount :: goint

definition New ::
  "'f option \<Rightarrow> goint \<Rightarrow> 'f rt \<Rightarrow> panic + (('f Evexi option \<times> error option) \<times> 'f rt)" where
  "New export_fn bufferMaxSize_arg r =
     (case export_fn of
        None \<Rightarrow> Inr ((None, Some ErrExportFuncNotSet), r)
      | Some f \<Rightarrow>
          (let initialBufSize = (if 0 <s bufferMaxSize_arg then bufferMaxSize_arg else 0) in
           case go_make 0 initialBufSize r of
             Inl p \<Rightarrow> Inl p
           | Inr (b, r') \<Rightarrow>
               Inr ((Some \<lparr>buffer = b, export = f, bufferMaxSize = bufferMaxSize_arg,
                            totalBufSize = 0, bufCount = 0\<rparr>, None), r')))"

definition bytes :: "'f Evexi \<Rightarrow> 'f rt \<Rightarrow> panic + (slice \<times> 'f rt)" where
  "bytes e r =
     (case go_make (go_len (buffer e)) (go_len (buffer e)) r of
        Inl p \<Rightarrow> Inl p
      | Inr (bufCopy, r') \<Rightarrow> Inr (bufCopy, go_copy bufCopy (buffer e) r'))"

definition Bytes :: "'f Evexi \<Rightarrow> 'f rt \<Rightarrow> panic + (slice \<times> 'f rt)" where
  "Bytes e r = bytes e r"

text \<open>\<open>e.buffer[:0]\<close>: the same array and capacity, length zero.\<close>

definition reslice0 :: "slice \<Rightarrow> slice" where
  "reslice0 s = s\<lparr>slen := 0\<rparr>"

definition reset :: "'f Evexi \<Rightarrow> 'f rt \<Rightarrow> panic + ('f Evexi \<times> 'f rt)" where
  "reset e r =
     (if 0 <s bufferMaxSize e then
        (if bufferMaxSize e \<le>s go_len (buffer e) then
           (case go_make 0 (bufferMaxSize e) r of
              Inl p \<Rightarrow> Inl p
            | Inr (b, r') \<Rightarrow> Inr (e\<lparr>buffer := b\<rparr>, r'))
         else Inr (e\<lparr>buffer := reslice0 (buffer e)\<rparr>, r))
      else
        (let e1 = e\<lparr>bufCount := bufCount e + 1\<rparr>;
             e2 = e1\<lparr>totalBufSize := totalBufSize e1 + go_len (buffer e1)\<rparr>
         in case go_div (totalBufSize e2) (bufCount e2) of
              Inl p \<Rightarrow> Inl p
            | Inr avgBufSize \<Rightarrow>
                (if go_len (buffer e2) \<le>s avgBufSize * 2 then
                   Inr (e2\<lparr>buffer := reslice0 (buffer e2)\<rparr>, r)
                 else
                   (case go_make avgBufSize avgBufSize r of
                      Inl p \<Rightarrow> Inl p
                    | Inr (b, r') \<Rightarrow> Inr (e2\<lparr>buffer := b\<rparr>, r')))))"

definition Reset :: "'f Evexi \<Rightarrow> 'f rt \<Rightarrow> panic + ('f Evexi \<times> 'f rt)" where
  "Reset e r = reset e r"

definition Export :: "bool \<Rightarrow> 'f Evexi \<Rightarrow> 'f rt \<Rightarrow> panic + ('f Evexi \<times> 'f rt)" where
  "Export reset_arg e r =
     (case bytes e r of
        Inl p \<Rightarrow> Inl p
      | Inr (data, r1) \<Rightarrow>
          (case (if reset_arg then reset e r1 else Inr (e, r1)) of
             Inl p \<Rightarrow> Inl p
           | Inr (e', r2) \<Rightarrow> Inr (e', go_spawn (export e') data r2)))"

definition Write ::
  "byte list \<Rightarrow> 'f Evexi \<Rightarrow> 'f rt \<Rightarrow> panic + ((goint \<times> error option) \<times> 'f Evexi \<times> 'f rt)" where
  "Write data e r =
     (case (if 0 <s bufferMaxSize e then
              (if bufferMaxSize e <s go_len (buffer e) + of_nat (length data) then
                 (case bytes e r of
                    Inl p \<Rightarrow> Inl p
                  | Inr (snapshot, r1) \<Rightarrow>
                      (case reset e r1 of
                         Inl p \<Rightarrow> Inl p
                       | Inr (e', r2) \<Rightarrow> Inr (e', go_spawn (export e') snapshot r2)))
               else Inr (e, r))
            else Inr (e, r)) of
        Inl p \<Rightarrow> Inl p
      | Inr (e1, r1) \<Rightarrow>
          (case go_append (buffer e1) data r1 of
             Inl p \<Rightarrow> Inl p
           | Inr (b, r2) \<Rightarrow> Inr ((of_nat (length data), None), e1\<lparr>buffer := b\<rparr>, r2)))"

text \<open>
  \<open>IntervalExport\<close>: the cancellation handle is the index of the ticker
  goroutine it starts; \<open>tick\<close> is the body of that goroutine's \<open>case <-t.C\<close>.
\<close>

definition IntervalExport ::
  "goint \<Rightarrow> 'f Evexi \<Rightarrow> 'f rt \<Rightarrow> (nat option \<times> error option) \<times> 'f Evexi \<times> 'f rt" where
  "IntervalExport exportInterval e r =
     (if exportInterval \<le>s 0 then ((None, Some ErrNegativeOrZeroInterval), e, r)
      else ((Some (length (tickers r)), None), e,
            r\<lparr>tickers := tickers r @ [exportInterval]\<rparr>))"

definition tick :: "'f Evexi \<Rightarrow> 'f rt \<Rightarrow> panic + ('f Evexi \<times> 'f rt)" where
  "tick e r =
     (case bytes e r of
        Inl p \<Rightarrow> Inl p
      | Inr (data, r1) \<Rightarrow>
          (case reset e r1 of
             Inl p \<Rightarrow> Inl p
           | Inr (e', r2) \<Rightarrow> Inr (e', go_spawn (export e') data r2)))"

text \<open>
  The three statements that \<open>Write\<close>, \<open>Export(true)\<close> and the ticker have in
  common, \<open>data := e.bytes(); e.reset(); go e.export(data)\<close>, on their own.
\<close>

definition flush :: "'f Evexi \<Rightarrow> 'f rt \<Rightarrow> panic + ('f Evexi \<times> 'f rt)" where
  "flush e r =
     (case bytes e r of
        Inl p \<Rightarrow> Inl p
      | Inr (data, r1) \<Rightarrow>
          (case reset e r1 of
             Inl p \<Rightarrow> Inl p
           | Inr (e', r2) \<Rightarrow> Inr (e', go_spawn (export e') data r2)))"

section \<open>Runs of the sink\<close>

text \<open>
  The calls a program can make on a sink once it is constructed, and the tick
  of a ticker goroutine. A tick of a ticker that was never started does
  nothing. A panic ends the run.
\<close>

datatype op =
    OpWrite "byte list"
  | OpExport bool
  | OpBytes
  | OpReset
  | OpIntervalExport goint
  | OpTick nat

fun step :: "op \<Rightarrow> 'f Evexi \<Rightarrow> 'f rt \<Rightarrow> panic + ('f Evexi \<times> 'f rt)" where
  "step (OpWrite data) e r =
     (case Write data e r of Inl p \<Rightarrow> Inl p | Inr (_, e', r') \<Rightarrow> Inr (e', r'))"
| "step (OpExport b) e r = Export b e r"
| "step OpBytes e r =
     (case Bytes e r of Inl p \<Rightarrow> Inl p | Inr (_, r') \<Rightarrow> Inr (e, r'))"
| "step OpReset e r = Reset e r"
| "step (OpIntervalExport d) e r =
     (case IntervalExport d e r of (_, e', r') \<Rightarrow> Inr (e', r'))"
| "step (OpTick i) e r = (if i < length (tickers r) then tick e r else Inr (e, r))"

fun run :: "op list \<Rightarrow> 'f Evexi \<Rightarrow> 'f rt \<Rightarrow> panic + ('f Evexi \<times> 'f rt)" where
  "run [] e r = Inr (e, r)"
| "run (x # xs) e r =
     (case step x e r of Inl p \<Rightarrow> Inl p | Inr (e', r') \<Rightarrow> run xs e' r')"

text \<open>
  A runtime in which nothing has happened yet, with growth policy \<open>g\<close> and the
  \<open>maxAlloc\<close> of 64-bit Linux, and a program that builds a sink in a runtime
  with \<open>New\<close> and then makes the calls \<open>ops\<close>. The exporter is present, so
  \<open>New\<close> returns a sink or panics; calling a method on the nil sink of a failed
  \<open>New\<close> would panic.
\<close>

definition rt_init :: "(nat \<Rightarrow> nat \<Rightarrow> nat) \<Rightarrow> 'f rt" where
  "rt_init g = \<lparr>arrays = [], growth = g, maxAlloc = 2 ^ 48, spawned = [], tickers = []\<rparr>"

definition run_from :: "'f rt \<Rightarrow> 'f \<Rightarrow> goint \<Rightarrow> op list \<Rightarrow> panic + ('f Evexi \<times> 'f rt)" where
  "run_from r0 f bufferMaxSize_arg ops =
     (case New (Some f) bufferMaxSize_arg r0 of
        Inr ((Some e, _), r) \<Rightarrow> run ops e r
      | Inr ((None, _), r) \<Rightarrow> Inl NilPointerDereference
      | Inl p \<Rightarrow> Inl p)"

text \<open>
  One such runtime, for the closed examples. Its growth policy stands for any:
  the runtime's own depends on its version and size classes, and no statement
  below depends on the capacity a grown buffer gets.
\<close>

definition rt0 :: "'f rt" where
  "rt0 = rt_init (\<lambda>old needed. 2 * needed)"

definition run_new :: "'f \<Rightarrow> goint \<Rightarrow> op list \<Rightarrow> panic + ('f Evexi \<times> 'f rt)" where
  "run_new f bufferMaxSize_arg ops = run_from rt0 f bufferMaxSize_arg ops"

text \<open>
  The sink and the runtime as \<open>New(f, 10)\<close> leaves them, and an adaptive sink
  in the middle of its life: 25 bytes in a buffer of capacity 32, after three
  flushes of 30 bytes in all.
\<close>

definition sink10 :: "unit Evexi" where
  "sink10 = \<lparr>buffer = \<lparr>ptr = 0, slen = 0, scap = 10\<rparr>, export = (),
              bufferMaxSize = 10, totalBufSize = 0, bufCount = 0\<rparr>"

definition rt10 :: "unit rt" where
  "rt10 = rt0\<lparr>arrays := [replicate 10 0]\<rparr>"

text \<open>The sink and the runtime as \<open>New(f, 0)\<close> leaves them.\<close>

definition sink_new0 :: "unit Evexi" where
  "sink_new0 = \<lparr>buffer = \<lparr>ptr = 0, slen = 0, scap = 0\<rparr>, export = (),
                  bufferMaxSize = 0, totalBufSize = 0, bufCount = 0\<rparr>"

definition rt_new0 :: "unit rt" where
  "rt_new0 = rt0\<lparr>arrays := [[]]\<rparr>"

text \<open>The sink and runtime of \<open>New(f, 10)\<close> after \<open>Write\<close> of the six bytes 1 to 6.\<close>

definition sink6 :: "unit Evexi" where
  "sink6 = sink10\<lparr>buffer := \<lparr>ptr = 0, slen = 6, scap = 10\<rparr>\<rparr>"

definition rt6 :: "unit rt" where
  "rt6 = rt0\<lparr>arrays := [[1, 2, 3, 4, 5, 6] @ replicate 4 0]\<rparr>"

definition sink_adaptive :: "unit Evexi" where
  "sink_adaptive = \<lparr>buffer = \<lparr>ptr = 0, slen = 25, scap = 32\<rparr>, export = (),
                      bufferMaxSize = 0, totalBufSize = 30, bufCount = 3\<rparr>"

definition rt_adaptive :: "unit rt" where
  "rt_adaptive = rt0\<lparr>arrays := [replicate 25 4 @ replicate 7 0]\<rparr>"

text \<open>What \<open>Bytes()\<close> returns when it is called at the end of a run.\<close>

definition bytes_after :: "panic + ('f Evexi \<times> 'f rt) \<Rightarrow> panic + byte list" where
  "bytes_after res =
     (case res of
        Inl p \<Rightarrow> Inl p
      | Inr (e, r) \<Rightarrow> (case Bytes e r of Inl p \<Rightarrow> Inl p | Inr (b, r') \<Rightarrow> Inr (elems r' b)))"

text \<open>The byte sequences the exporter was started with, in the order of dispatch.\<close>

definition exported :: "panic + ('f Evexi \<times> 'f rt) \<Rightarrow> byte list list" where
  "exported res =
     (case res of Inl p \<Rightarrow> [] | Inr (e, r) \<Rightarrow> map (\<lambda>(f, data). elems r data) (spawned r))"

text \<open>
  At the end of a run: the length of the sink's buffer with its two counters
  (the total and the count), and the average the reset policy would draw from
  the counters, total / count.
\<close>

definition observe ::
  "panic + ('f Evexi \<times> 'f rt) \<Rightarrow> panic + (nat \<times> goint \<times> goint)" where
  "observe res =
     (case res of
        Inl p \<Rightarrow> Inl p
      | Inr (e, r) \<Rightarrow> Inr (slen (buffer e), totalBufSize e, bufCount e))"

definition average :: "panic + ('f Evexi \<times> 'f rt) \<Rightarrow> panic + goint" where
  "average res =
     (case res of
        Inl p \<Rightarrow> Inl p
      | Inr (e, r) \<Rightarrow> go_div (totalBufSize e) (bufCount e))"

text \<open>The capacity of the sink's buffer at the end of a run.\<close>

definition buffer_cap :: "panic + ('f Evexi \<times> 'f rt) \<Rightarrow> panic + nat" where
  "buffer_cap res = (case res of Inl p \<Rightarrow> Inl p | Inr (e, r) \<Rightarrow> Inr (scap (buffer e)))"

text \<open>
  The buffer at the end of run \<open>after\<close> is freshly allocated when its array did
  not exist yet at the end of run \<open>before\<close>, and reused when it is the array
  the buffer was in at the end of run \<open>before\<close>.
\<close>

definition reused ::
  "panic + ('f Evexi \<times> 'f rt) \<Rightarrow> panic + ('f Evexi \<times> 'f rt) \<Rightarrow> bool" where
  "reused before after =
     (case (before, after) of
        (Inr (e, r), Inr (e', r')) \<Rightarrow> ptr (buffer e') = ptr (buffer e)
      | _ \<Rightarrow> False)"

definition reallocated ::
  "panic + ('f Evexi \<times> 'f rt) \<Rightarrow> panic + ('f Evexi \<times> 'f rt) \<Rightarrow> bool" where
  "reallocated before after =
     (case (before, after) of
        (Inr (e, r), Inr (e', r')) \<Rightarrow> length (arrays r) \<le> ptr (buffer e')
      | _ \<Rightarrow> False)"

text \<open>
  A slice of the store: its array exists, has \<open>cap\<close> cells, and \<open>len \<le> cap\<close>,
  within the range of \<open>int\<close> and within what the runtime allocates.
\<close>

definition wf_slice :: "'f rt \<Rightarrow> slice \<Rightarrow> bool" where
  "wf_slice r s \<longleftrightarrow>
     ptr s < length (arrays r) \<and> slen s \<le> scap s
     \<and> length (arrays r ! ptr s) = scap s \<and> scap s \<le> maxInt
     \<and> scap s \<le> maxAlloc r"

text \<open>
  An adaptive sink with \<open>k\<close> flushes of \<open>t\<close> bytes in all behind it and \<open>n\<close>
  bytes in its buffer, in a runtime with the \<open>maxAlloc\<close> of \<open>rt_init\<close>.
\<close>

definition adaptive_at :: "'f rt \<Rightarrow> 'f Evexi \<Rightarrow> nat \<Rightarrow> nat \<Rightarrow> nat \<Rightarrow> bool" where
  "adaptive_at r e k t n \<longleftrightarrow>
     wf_slice r (buffer e) \<and> maxAlloc r = 2 ^ 48 \<and> bufferMaxSize e = 0
     \<and> bufCount e = of_nat k \<and> totalBufSize e = of_nat t \<and> slen (buffer e) = n"

text \<open>
  The flush count stands for a number of resets that is at most \<open>k\<close>, the
  number of calls made so far.
\<close>

definition counted :: "nat \<Rightarrow> 'f Evexi \<Rightarrow> bool" where
  "counted k e \<longleftrightarrow> (\<exists>j\<le>k. bufCount e = of_nat j)"

text \<open>
  The adaptive scenario: three flushes of ten bytes each, then \<open>n\<close> more bytes
  in the buffer, waiting for the fourth flush.
\<close>

definition three_flushes :: "op list" where
  "three_flushes =
     [OpWrite (replicate 10 1), OpExport True,
      OpWrite (replicate 10 2), OpExport True,
      OpWrite (replicate 10 3), OpExport True]"

definition adaptive_scenario :: "nat \<Rightarrow> op list" where
  "adaptive_scenario n = three_flushes @ [OpWrite (replicate n 4)]"

text \<open>
  The adaptive reset policy as the specification words it, on natural numbers:
  the new flush count, the new total, the average, and whether the buffer is
  truncated in place.
\<close>

definition adaptive_policy :: "nat \<Rightarrow> nat \<Rightarrow> nat \<Rightarrow> nat \<times> nat \<times> nat \<times> bool" where
  "adaptive_policy flushCount totalFlushedBytes buflen =
     (let flushCount' = flushCount + 1;
          totalFlushedBytes' = totalFlushedBytes + buflen;
          avg = totalFlushedBytes' div flushCount'
      in (flushCount', totalFlushedBytes', avg, buflen \<le> 2 * avg))"

section \<open>The disk exporter (disk.go)\<close>

text \<open>
  What the exporter reads from its environment: the path separator of the
  platform, the working directory or the error of \<open>os.Getwd\<close>, the current time
  with the standard library's \<open>Format\<close>, and the error, if any, that
  \<open>ioutil.WriteFile\<close> returns for a path. What it does is a list of calls.
\<close>

record 't os_env =
  PathSeparator :: char
  Getwd :: "string + string"
  Now :: 't
  Format :: "'t \<Rightarrow> string \<Rightarrow> string"
  WriteFile_error :: "string \<Rightarrow> string option"

datatype call =
    WriteFile string "byte list" nat
  | LogPrintln "string list"

definition fileDateFormat :: string where
  "fileDateFormat = ''2006_01_02-15_04_05''"

text \<open>\<open>fmt.Sprintf("%s%s%s_%s.txt", a, b, c, d)\<close>.\<close>

definition Sprintf_path :: "string \<Rightarrow> string \<Rightarrow> string \<Rightarrow> string \<Rightarrow> string" where
  "Sprintf_path a b c d = a @ b @ c @ ''_'' @ d @ ''.txt''"

text \<open>The closure \<open>ExportToDisk\<close> returns, over \<open>dir\<close> and \<open>fileNamePrefix\<close>; \<open>0644\<close> is 420.\<close>

datatype closure = DiskExporter string string

fun call_closure :: "'t os_env \<Rightarrow> closure \<Rightarrow> byte list \<Rightarrow> call list" where
  "call_closure env (DiskExporter dir fileNamePrefix) logData =
     (if 0 < length logData then
        (let logPath = Sprintf_path dir [PathSeparator env] fileNamePrefix
                         (Format env (Now env) fileDateFormat)
         in WriteFile logPath logData 420 #
            (case WriteFile_error env logPath of
               None \<Rightarrow> []
             | Some err \<Rightarrow> [LogPrintln [''Unable to export to disk:'', err]]))
      else [])"

definition ExportToDisk ::
  "'t os_env \<Rightarrow> string \<Rightarrow> string \<Rightarrow> closure option \<times> string option" where
  "ExportToDisk env path fileNamePrefix =
     (if path = [] then
        (case Getwd env of
           Inl err \<Rightarrow> (None, Some err)
         | Inr dir \<Rightarrow> (Some (DiskExporter dir fileNamePrefix), None))
      else (Some (DiskExporter path fileNamePrefix), None))"

text \<open>The \<open>WriteFile\<close> calls among a list of calls.\<close>

fun writes :: "call list \<Rightarrow> (string \<times> byte list \<times> nat) list" where
  "writes [] = []"
| "writes (WriteFile p d m # cs) = (p, d, m) # writes cs"
| "writes (LogPrintln _ # cs) = writes cs"

section \<open>Arithmetic on \<open>int\<close> within its range\<close>

lemma maxInt_num: "maxInt = 9223372036854775807"
  by (simp add: maxInt_def)

lemma sint_of_int_goint:
  assumes "- (2 ^ 63) \<le> k" "k < 2 ^ 63"
  shows "sint (word_of_int k :: goint) = k"
  using assms by (simp add: sint_sbintrunc' signed_take_bit_int_eq_self)

lemma sint_of_nat_goint:
  assumes "n \<le> maxInt"
  shows "sint (of_nat n :: goint) = int n"
proof -
  have "int n < 2 ^ 63" using assms by (simp add: maxInt_num)
  then have "sint (word_of_int (int n) :: goint) = int n"
    by (intro sint_of_int_goint) simp_all
  then show ?thesis by simp
qed

lemma sint_go_len: "slen s \<le> maxInt \<Longrightarrow> sint (go_len s) = int (slen s)"
  by (simp add: go_len_def sint_of_nat_goint)

lemma of_nat_goint_eq_0:
  assumes "n \<le> maxInt" "(of_nat n :: goint) = 0"
  shows "n = 0"
proof -
  have "sint (of_nat n :: goint) = int n" using assms(1) by (rule sint_of_nat_goint)
  with assms(2) show ?thesis by simp
qed

lemma go_div_nat:
  assumes "t \<le> maxInt" "0 < c" "c \<le> maxInt"
  shows "go_div (of_nat t) (of_nat c) = Inr (of_nat (t div c))"
proof -
  have c0: "(of_nat c :: goint) \<noteq> 0"
    using of_nat_goint_eq_0 [of c] assms by auto
  have "sint (of_nat t :: goint) sdiv sint (of_nat c :: goint) = int t sdiv int c"
    using assms by (simp add: sint_of_nat_goint)
  also have "\<dots> = int (t div c)"
    using assms by (simp add: signed_divide_int_def zdiv_int sgn_if)
  finally show ?thesis using c0 by (simp add: go_div_def)
qed

lemma sle_of_nat:
  assumes "n \<le> maxInt" "m \<le> maxInt"
  shows "(of_nat n :: goint) \<le>s of_nat m \<longleftrightarrow> n \<le> m"
  using assms by (simp add: word_sle_eq sint_of_nat_goint)

lemma make_nat:
  assumes "n \<le> maxInt" "n \<le> maxAlloc r"
  shows "go_make (of_nat n) (of_nat n) r =
     Inr (\<lparr>ptr = length (arrays r), slen = n, scap = n\<rparr>,
          r\<lparr>arrays := arrays r @ [replicate n 0]\<rparr>)"
  using assms by (simp add: go_make_def word_sless_alt sint_of_nat_goint)

lemma go_make_0:
  "go_make 0 c r =
     (if sint c < 0 \<or> maxAlloc r < nat (sint c) then Inl MakesliceCapOutOfRange
      else Inr (\<lparr>ptr = length (arrays r), slen = 0, scap = nat (sint c)\<rparr>,
                r\<lparr>arrays := arrays r @ [replicate (nat (sint c)) 0]\<rparr>))"
  by (auto simp: go_make_def word_sless_alt)

lemma rt0_eq:
  "rt0 = \<lparr>arrays = [], growth = (\<lambda>old needed. 2 * needed),
           maxAlloc = 281474976710656, spawned = [], tickers = []\<rparr>"
  by (simp add: rt0_def rt_init_def)

section \<open>The shared flush\<close>

lemma Write_flush:
  "Write data e r =
     (case (if 0 <s bufferMaxSize e
               \<and> bufferMaxSize e <s go_len (buffer e) + of_nat (length data)
            then flush e r else Inr (e, r)) of
        Inl p \<Rightarrow> Inl p
      | Inr (e1, r1) \<Rightarrow>
          (case go_append (buffer e1) data r1 of
             Inl p \<Rightarrow> Inl p
           | Inr (b, r2) \<Rightarrow> Inr ((of_nat (length data), None), e1\<lparr>buffer := b\<rparr>, r2)))"
  by (simp add: Write_def flush_def)

lemma tick_flush: "tick e r = flush e r"
  by (simp add: tick_def flush_def)

lemma Export_flush: "Export True e r = flush e r"
  by (simp add: Export_def flush_def split: sum.splits prod.splits)

section \<open>Slices in the store\<close>

lemma elems_length: "wf_slice r s \<Longrightarrow> length (elems r s) = slen s"
  by (simp add: wf_slice_def elems_def array_of_def)

lemma bytes_wf:
  assumes "wf_slice r (buffer e)"
  shows "bytes e r =
     Inr (\<lparr>ptr = length (arrays r), slen = slen (buffer e), scap = slen (buffer e)\<rparr>,
          r\<lparr>arrays := arrays r @ [elems r (buffer e)]\<rparr>)"
proof -
  let ?b = "buffer e"
  have n: "slen ?b \<le> maxInt" and m: "slen ?b \<le> maxAlloc r"
    and p: "ptr ?b < length (arrays r)"
    using assms by (auto simp: wf_slice_def)
  have len: "length (elems r ?b) = slen ?b" using assms by (rule elems_length)
  have mk: "go_make (go_len ?b) (go_len ?b) r =
     Inr (\<lparr>ptr = length (arrays r), slen = slen ?b, scap = slen ?b\<rparr>,
          r\<lparr>arrays := arrays r @ [replicate (slen ?b) 0]\<rparr>)"
    unfolding go_len_def using n m by (rule make_nat)
  have el: "elems (r\<lparr>arrays := arrays r @ [replicate (slen ?b) 0]\<rparr>) ?b = elems r ?b"
    using p by (simp add: elems_def array_of_def nth_append)
  show ?thesis
    by (simp add: bytes_def mk go_copy_def el store_def array_of_def len)
qed

lemma wf_slice_older:
  "wf_slice r s \<Longrightarrow> wf_slice (r\<lparr>arrays := arrays r @ [xs]\<rparr>) s"
  by (simp add: wf_slice_def nth_append)

lemma reset_fixed:
  assumes fixed: "0 < sint (bufferMaxSize e)" and wf: "wf_slice r (buffer e)"
  shows "reset e r =
     (if sint (bufferMaxSize e) \<le> int (slen (buffer e))
      then Inr (e\<lparr>buffer := \<lparr>ptr = length (arrays r), slen = 0,
                               scap = nat (sint (bufferMaxSize e))\<rparr>\<rparr>,
                r\<lparr>arrays := arrays r @ [replicate (nat (sint (bufferMaxSize e))) 0]\<rparr>)
      else Inr (e\<lparr>buffer := (buffer e)\<lparr>slen := 0\<rparr>\<rparr>, r))"
proof -
  have n: "slen (buffer e) \<le> maxInt" and m: "slen (buffer e) \<le> maxAlloc r"
    using wf by (auto simp: wf_slice_def)
  have cmp: "bufferMaxSize e \<le>s go_len (buffer e)
               \<longleftrightarrow> sint (bufferMaxSize e) \<le> int (slen (buffer e))"
    using n by (simp add: word_sle_eq sint_go_len)
  show ?thesis
  proof (cases "sint (bufferMaxSize e) \<le> int (slen (buffer e))")
    case True
    with m fixed have "\<not> (sint (bufferMaxSize e) < 0 \<or> maxAlloc r < nat (sint (bufferMaxSize e)))"
      by auto
    then have "go_make 0 (bufferMaxSize e) r =
        Inr (\<lparr>ptr = length (arrays r), slen = 0, scap = nat (sint (bufferMaxSize e))\<rparr>,
             r\<lparr>arrays := arrays r @ [replicate (nat (sint (bufferMaxSize e))) 0]\<rparr>)"
      by (simp only: go_make_0 if_False)
    with True fixed cmp show ?thesis by (simp add: reset_def word_sless_alt)
  next
    case False
    with fixed cmp show ?thesis by (simp add: reset_def word_sless_alt reslice0_def)
  qed
qed

lemma sint_le_maxInt: "nat (sint (w :: goint)) \<le> maxInt"
proof -
  have "sint w < 2 ^ 63" using sint_lt [of w] by simp
  then show ?thesis by (simp add: maxInt_num)
qed

lemma go_append_wf:
  assumes wf: "wf_slice r s" and fits: "slen s + length data \<le> maxInt"
      and mem: "slen s + length data \<le> maxAlloc r"
  shows "\<exists>s' r'. go_append s data r = Inr (s', r')
           \<and> wf_slice r' s' \<and> elems r' s' = elems r s @ data
           \<and> slen s' = slen s + length data
           \<and> (ptr s' = ptr s \<or> ptr s' = length (arrays r))
           \<and> length (arrays r) \<le> length (arrays r')
           \<and> (\<forall>p<length (arrays r). p \<noteq> ptr s \<longrightarrow> arrays r' ! p = arrays r ! p)
           \<and> spawned r' = spawned r \<and> tickers r' = tickers r \<and> growth r' = growth r
           \<and> maxAlloc r' = maxAlloc r"
proof (cases "slen s + length data \<le> scap s")
  case True
  let ?a = "arrays r ! ptr s"
  have p: "ptr s < length (arrays r)" and la: "length ?a = scap s" and c: "scap s \<le> maxInt"
    and ca: "scap s \<le> maxAlloc r"
    using wf by (auto simp: wf_slice_def)
  have st: "length (store ?a (slen s) data) = scap s"
    using True la by (simp add: store_def)
  have tk: "take (slen s + length data) (store ?a (slen s) data) = take (slen s) ?a @ data"
    using True la by (simp add: store_def)
  show ?thesis
    using True fits p c ca st tk
    by (simp add: go_append_def Let_def wf_slice_def elems_def array_of_def)
next
  case False
  define n where "n = slen s + length data"
  define c where "c = newcap r (scap s) n"
  have cn: "n \<le> c" and cm: "c \<le> maxInt" and ca: "c \<le> maxAlloc r"
    using fits mem by (auto simp: c_def newcap_def n_def)
  have ls: "length (elems r s) = slen s" using wf by (rule elems_length)
  have la: "length (elems r s @ data @ replicate (c - n) 0) = c"
    using cn ls by (simp add: n_def)
  have tk: "take n (elems r s @ data @ replicate (c - n) 0) = elems r s @ data"
    using ls by (simp add: n_def)
  show ?thesis
    using False fits mem cn cm ca la tk
    by (simp add: go_append_def Let_def wf_slice_def array_of_def nth_append
        elems_def [of "r\<lparr>arrays := _\<rparr>"] flip: n_def c_def)
qed

lemma elems_empty: "slen s = 0 \<Longrightarrow> elems r s = []"
  by (simp add: elems_def)

lemma flush_fixed:
  assumes wf: "wf_slice r (buffer e)" and fixed: "0 < sint (bufferMaxSize e)"
  shows "\<exists>b' r'. flush e r = Inr (e\<lparr>buffer := b'\<rparr>, r')
           \<and> wf_slice r' b' \<and> slen b' = 0
           \<and> spawned r' = spawned r @ [(export e,
                \<lparr>ptr = length (arrays r), slen = slen (buffer e), scap = slen (buffer e)\<rparr>)]
           \<and> ptr b' \<noteq> length (arrays r)
           \<and> length (arrays r) < length (arrays r')
           \<and> arrays r' ! length (arrays r) = elems r (buffer e)
           \<and> tickers r' = tickers r \<and> growth r' = growth r
           \<and> maxAlloc r' = maxAlloc r"
proof -
  let ?b = "buffer e"
  let ?r1 = "r\<lparr>arrays := arrays r @ [elems r ?b]\<rparr>"
  have n: "slen ?b \<le> maxInt" and p: "ptr ?b < length (arrays r)"
    and la: "length (arrays r ! ptr ?b) = scap ?b" and lc: "slen ?b \<le> scap ?b"
    and cm: "scap ?b \<le> maxInt" and ca: "scap ?b \<le> maxAlloc r"
    using wf by (auto simp: wf_slice_def)
  have wf1: "wf_slice ?r1 ?b" using wf by (rule wf_slice_older)
  have bt: "bytes e r =
     Inr (\<lparr>ptr = length (arrays r), slen = slen ?b, scap = slen ?b\<rparr>, ?r1)"
    using wf by (rule bytes_wf)
  have rs: "reset e ?r1 =
     (if sint (bufferMaxSize e) \<le> int (slen ?b)
      then Inr (e\<lparr>buffer := \<lparr>ptr = length (arrays ?r1), slen = 0,
                               scap = nat (sint (bufferMaxSize e))\<rparr>\<rparr>,
                ?r1\<lparr>arrays := arrays ?r1 @ [replicate (nat (sint (bufferMaxSize e))) 0]\<rparr>)
      else Inr (e\<lparr>buffer := ?b\<lparr>slen := 0\<rparr>\<rparr>, ?r1))"
    using reset_fixed [OF fixed wf1] by simp
  show ?thesis
  proof (cases "sint (bufferMaxSize e) \<le> int (slen ?b)")
    case True
    let ?b' = "\<lparr>ptr = Suc (length (arrays r)), slen = 0,
                 scap = nat (sint (bufferMaxSize e))\<rparr>"
    let ?r' = "go_spawn (export e)
                 \<lparr>ptr = length (arrays r), slen = slen ?b, scap = slen ?b\<rparr>
                 (?r1\<lparr>arrays := arrays ?r1 @ [replicate (nat (sint (bufferMaxSize e))) 0]\<rparr>)"
    have "flush e r = Inr (e\<lparr>buffer := ?b'\<rparr>, ?r')"
      using True by (simp add: flush_def bt rs)
    moreover have "wf_slice ?r' ?b'"
      using sint_le_maxInt [of "bufferMaxSize e"] True lc ca
      by (simp add: go_spawn_def wf_slice_def nth_append)
    ultimately show ?thesis
      by (intro exI [of _ ?b'] exI [of _ ?r']) (simp add: go_spawn_def nth_append)
  next
    case False
    let ?b' = "?b\<lparr>slen := 0\<rparr>"
    let ?r' = "go_spawn (export e)
                 \<lparr>ptr = length (arrays r), slen = slen ?b, scap = slen ?b\<rparr> ?r1"
    have "flush e r = Inr (e\<lparr>buffer := ?b'\<rparr>, ?r')"
      using False by (simp add: flush_def bt rs)
    moreover have "wf_slice ?r' ?b'"
      using p la cm ca by (simp add: go_spawn_def wf_slice_def nth_append)
    ultimately show ?thesis
      using p by (intro exI [of _ ?b'] exI [of _ ?r']) (simp add: go_spawn_def nth_append)
  qed
qed

lemma Write_cond:
  assumes "slen (buffer e) + length data \<le> maxInt"
  shows "(0 <s bufferMaxSize e
           \<and> bufferMaxSize e <s go_len (buffer e) + of_nat (length data))
         \<longleftrightarrow> (0 < sint (bufferMaxSize e)
           \<and> sint (bufferMaxSize e) < int (slen (buffer e) + length data))"
proof -
  have "go_len (buffer e) + of_nat (length data)
          = (of_nat (slen (buffer e) + length data) :: goint)"
    by (simp add: go_len_def)
  then have "sint (go_len (buffer e) + of_nat (length data))
          = int (slen (buffer e) + length data)"
    using sint_of_nat_goint [OF assms] by simp
  then show ?thesis by (simp add: word_sless_alt)
qed

lemma Write_flushes:
  assumes wf: "wf_slice r (buffer e)"
      and fixed: "0 < sint (bufferMaxSize e)"
      and over: "sint (bufferMaxSize e) < int (slen (buffer e) + length data)"
      and fits: "slen (buffer e) + length data \<le> maxInt"
      and mem: "length data \<le> maxAlloc r"
  shows "\<exists>b' r' snap. Write data e r = Inr ((of_nat (length data), None), e\<lparr>buffer := b'\<rparr>, r')
           \<and> spawned r' = spawned r @ [(export e, snap)]
           \<and> elems r' snap = elems r (buffer e)
           \<and> ptr snap \<noteq> ptr (buffer e) \<and> ptr snap \<noteq> ptr b'
           \<and> wf_slice r' b' \<and> slen b' = length data
           \<and> elems r' b' = data"
proof -
  let ?snap = "\<lparr>ptr = length (arrays r), slen = slen (buffer e), scap = slen (buffer e)\<rparr>"
  from flush_fixed [OF wf fixed] obtain b1 r1 where
    fl: "flush e r = Inr (e\<lparr>buffer := b1\<rparr>, r1)"
    and wf1: "wf_slice r1 b1" and l1: "slen b1 = 0"
    and sp1: "spawned r1 = spawned r @ [(export e, ?snap)]"
    and p1: "ptr b1 \<noteq> length (arrays r)"
    and len1: "length (arrays r) < length (arrays r1)"
    and a1: "arrays r1 ! length (arrays r) = elems r (buffer e)"
    and m1: "maxAlloc r1 = maxAlloc r"
    by blast
  have fits1: "slen b1 + length data \<le> maxInt" using fits l1 by simp
  have mem1: "slen b1 + length data \<le> maxAlloc r1" using mem l1 m1 by simp
  from go_append_wf [OF wf1 fits1 mem1] obtain b2 r2 where
    ap: "go_append b1 data r1 = Inr (b2, r2)"
    and wf2: "wf_slice r2 b2" and el2: "elems r2 b2 = elems r1 b1 @ data"
    and l2: "slen b2 = slen b1 + length data"
    and p2: "ptr b2 = ptr b1 \<or> ptr b2 = length (arrays r1)"
    and len2: "length (arrays r1) \<le> length (arrays r2)"
    and keep: "\<forall>p<length (arrays r1). p \<noteq> ptr b1 \<longrightarrow> arrays r2 ! p = arrays r1 ! p"
    and sp2: "spawned r2 = spawned r1"
    by blast
  have cond: "0 <s bufferMaxSize e
           \<and> bufferMaxSize e <s go_len (buffer e) + of_nat (length data)"
    using Write_cond [OF fits] fixed over by simp
  have W: "Write data e r = Inr ((of_nat (length data), None), e\<lparr>buffer := b2\<rparr>, r2)"
    using cond by (simp add: Write_flush fl ap)
  have s2: "arrays r2 ! length (arrays r) = elems r (buffer e)"
    using keep len1 p1 a1 by auto
  have ls: "length (elems r (buffer e)) = slen (buffer e)" using wf by (rule elems_length)
  have snap: "elems r2 ?snap = elems r (buffer e)"
    using len1 len2 s2 ls by (simp add: elems_def array_of_def)
  have pb: "ptr ?snap \<noteq> ptr (buffer e)" using wf by (simp add: wf_slice_def)
  have pb2: "ptr ?snap \<noteq> ptr b2" using p1 p2 len1 by auto
  have "elems r2 b2 = data" using el2 l1 by (simp add: elems_empty)
  with W sp1 sp2 snap pb pb2 wf2 l2 l1 show ?thesis by auto
qed

lemma Write_no_flush:
  assumes wf: "wf_slice r (buffer e)"
      and nf: "\<not> (0 < sint (bufferMaxSize e)
                  \<and> sint (bufferMaxSize e) < int (slen (buffer e) + length data))"
      and fits: "slen (buffer e) + length data \<le> maxInt"
      and mem: "slen (buffer e) + length data \<le> maxAlloc r"
  shows "\<exists>b' r'. Write data e r = Inr ((of_nat (length data), None), e\<lparr>buffer := b'\<rparr>, r')
           \<and> wf_slice r' b' \<and> elems r' b' = elems r (buffer e) @ data
           \<and> spawned r' = spawned r \<and> maxAlloc r' = maxAlloc r
           \<and> (ptr b' = ptr (buffer e) \<or> ptr b' = length (arrays r))
           \<and> length (arrays r) \<le> length (arrays r')"
proof -
  from go_append_wf [OF wf fits mem] obtain b2 r2 where
    ap: "go_append (buffer e) data r = Inr (b2, r2)"
    and wf2: "wf_slice r2 b2" and el2: "elems r2 b2 = elems r (buffer e) @ data"
    and sp2: "spawned r2 = spawned r \<and> maxAlloc r2 = maxAlloc r
           \<and> (ptr b2 = ptr (buffer e) \<or> ptr b2 = length (arrays r))
           \<and> length (arrays r) \<le> length (arrays r2)"
    by blast
  have cond: "\<not> (0 <s bufferMaxSize e
           \<and> bufferMaxSize e <s go_len (buffer e) + of_nat (length data))"
    using Write_cond [OF fits] nf by simp
  have "Write data e r = Inr ((of_nat (length data), None), e\<lparr>buffer := b2\<rparr>, r2)"
    by (simp add: Write_flush ap cond)
  with wf2 el2 sp2 show ?thesis by blast
qed

lemma run_Writes:
  assumes wf: "wf_slice r (buffer e)"
      and nf: "0 < sint (bufferMaxSize e) \<longrightarrow>
                 int (slen (buffer e) + length (concat ds)) \<le> sint (bufferMaxSize e)"
      and fits: "slen (buffer e) + length (concat ds) \<le> maxInt"
      and mem: "slen (buffer e) + length (concat ds) \<le> maxAlloc r"
  shows "\<exists>b' r'. run (map OpWrite ds) e r = Inr (e\<lparr>buffer := b'\<rparr>, r')
           \<and> wf_slice r' b' \<and> elems r' b' = elems r (buffer e) @ concat ds
           \<and> spawned r' = spawned r"
  using assms
proof (induction ds arbitrary: e r)
  case Nil
  have "e\<lparr>buffer := buffer e\<rparr> = e" by simp
  with Nil.prems(1) show ?case by (intro exI [of _ "buffer e"] exI [of _ r]) simp
next
  case (Cons d ds)
  have nf1: "\<not> (0 < sint (bufferMaxSize e)
                  \<and> sint (bufferMaxSize e) < int (slen (buffer e) + length d))"
    using Cons.prems(2) by auto
  have fits1: "slen (buffer e) + length d \<le> maxInt" using Cons.prems(3) by simp
  have mem1: "slen (buffer e) + length d \<le> maxAlloc r" using Cons.prems(4) by simp
  from Write_no_flush [OF Cons.prems(1) nf1 fits1 mem1] obtain b1 r1 where
    W: "Write d e r = Inr ((of_nat (length d), None), e\<lparr>buffer := b1\<rparr>, r1)"
    and wf1: "wf_slice r1 b1" and el1: "elems r1 b1 = elems r (buffer e) @ d"
    and sp1: "spawned r1 = spawned r" and m1: "maxAlloc r1 = maxAlloc r"
    by blast
  let ?e1 = "e\<lparr>buffer := b1\<rparr>"
  have l0: "length (elems r (buffer e)) = slen (buffer e)"
    using Cons.prems(1) by (rule elems_length)
  have "length (elems r1 b1) = slen b1" using wf1 by (rule elems_length)
  with el1 l0 have l1: "slen b1 = slen (buffer e) + length d" by simp
  have wf1': "wf_slice r1 (buffer ?e1)" using wf1 by simp
  have nf': "0 < sint (bufferMaxSize ?e1) \<longrightarrow>
                 int (slen (buffer ?e1) + length (concat ds)) \<le> sint (bufferMaxSize ?e1)"
    using Cons.prems(2) l1 by (simp add: add.assoc)
  have fits': "slen (buffer ?e1) + length (concat ds) \<le> maxInt"
    using Cons.prems(3) l1 by (simp add: add.assoc)
  have mem': "slen (buffer ?e1) + length (concat ds) \<le> maxAlloc r1"
    using Cons.prems(4) l1 m1 by (simp add: add.assoc)
  from Cons.IH [OF wf1' nf' fits' mem'] obtain b2 r2 where
    R: "run (map OpWrite ds) ?e1 r1 = Inr (?e1\<lparr>buffer := b2\<rparr>, r2)"
    and wf2: "wf_slice r2 b2" and el2: "elems r2 b2 = elems r1 (buffer ?e1) @ concat ds"
    and sp2: "spawned r2 = spawned r1"
    by blast
  have "run (map OpWrite (d # ds)) e r = Inr (e\<lparr>buffer := b2\<rparr>, r2)"
    using W R by simp
  moreover have "elems r2 b2 = elems r (buffer e) @ concat (d # ds)"
    using el2 el1 by simp
  ultimately show ?case using wf2 sp2 sp1 by auto
qed

lemma elems_newest:
  "elems (r\<lparr>arrays := arrays r @ [xs]\<rparr>) \<lparr>ptr = length (arrays r), slen = n, scap = m\<rparr>
     = take n xs"
  by (simp add: elems_def array_of_def)

lemma elems_older:
  "ptr s < length (arrays r) \<Longrightarrow> elems (r\<lparr>arrays := arrays r @ [xs]\<rparr>) s = elems r s"
  by (simp add: elems_def array_of_def nth_append)

lemma New_wf:
  assumes "New (Some f) c r0 = Inr ((Some e0, None), r1)"
  shows "wf_slice r1 (buffer e0) \<and> slen (buffer e0) = 0 \<and> bufferMaxSize e0 = c
         \<and> spawned r1 = spawned r0 \<and> maxAlloc r1 = maxAlloc r0
         \<and> bufCount e0 = 0 \<and> totalBufSize e0 = 0"
  using assms sint_le_maxInt [of c]
  by (auto simp: New_def go_make_0 Let_def wf_slice_def word_sless_alt split: if_splits)

section \<open>Every state of a run has a well-formed buffer\<close>

lemma wf_slice_go_spawn: "wf_slice (go_spawn f d r) s \<longleftrightarrow> wf_slice r s"
  by (simp add: wf_slice_def go_spawn_def)

lemma wf_slice_reslice0: "wf_slice r s \<Longrightarrow> wf_slice r (reslice0 s)"
  by (simp add: wf_slice_def reslice0_def)

lemma go_make_wf:
  assumes "go_make n c r = Inr (s, r')"
  shows "wf_slice r' s"
  using assms sint_le_maxInt [of c]
  by (auto simp: go_make_def wf_slice_def word_sless_alt split: if_splits)

lemma wf_slice_cong:
  "arrays r' = arrays r \<Longrightarrow> maxAlloc r' = maxAlloc r \<Longrightarrow> wf_slice r' s = wf_slice r s"
  by (simp add: wf_slice_def)

lemma bytes_keeps_wf:
  assumes "wf_slice r (buffer e)" "bytes e r = Inr (b, r')"
  shows "wf_slice r' (buffer e)"
  using assms bytes_wf [OF assms(1)] by (auto simp: wf_slice_older)

lemma reset_keeps_wf:
  assumes "wf_slice r (buffer e)" "reset e r = Inr (e', r')"
  shows "wf_slice r' (buffer e')"
  using assms
  by (auto simp: reset_def Let_def split: if_splits sum.splits
      intro: wf_slice_reslice0 go_make_wf)

lemma go_append_fits:
  assumes "wf_slice r s" "go_append s data r = Inr (s', r')"
  shows "slen s + length data \<le> maxInt" "slen s + length data \<le> maxAlloc r"
proof -
  show "slen s + length data \<le> maxInt"
    using assms(2) by (auto simp: go_append_def Let_def split: if_splits)
  have "scap s \<le> maxAlloc r" using assms(1) by (simp add: wf_slice_def)
  then show "slen s + length data \<le> maxAlloc r"
    using assms(2) by (auto simp: go_append_def Let_def split: if_splits)
qed

lemma go_append_keeps_wf:
  assumes "wf_slice r s" "go_append s data r = Inr (s', r')"
  shows "wf_slice r' s'"
  using go_append_wf [OF assms(1) go_append_fits [OF assms]] assms(2) by auto

lemma flush_keeps_wf:
  assumes "wf_slice r (buffer e)" "flush e r = Inr (e', r')"
  shows "wf_slice r' (buffer e')"
proof -
  from assms(2) obtain b r1 r2 where
    "bytes e r = Inr (b, r1)" "reset e r1 = Inr (e', r2)" "r' = go_spawn (export e') b r2"
    by (auto simp: flush_def split: sum.splits prod.splits)
  with assms(1) show ?thesis
    using bytes_keeps_wf reset_keeps_wf by (simp add: wf_slice_go_spawn) blast
qed

lemma Export_keeps_wf:
  assumes "wf_slice r (buffer e)" "Export x e r = Inr (e', r')"
  shows "wf_slice r' (buffer e')"
proof -
  from assms(2) obtain b r1 r2 where
    b: "bytes e r = Inr (b, r1)"
    and r: "(if x then reset e r1 else Inr (e, r1)) = Inr (e', r2)"
    and r': "r' = go_spawn (export e') b r2"
    by (auto simp: Export_def split: sum.splits prod.splits)
  have "wf_slice r1 (buffer e)" using assms(1) b by (rule bytes_keeps_wf)
  with r have "wf_slice r2 (buffer e')"
    by (auto split: if_splits intro: reset_keeps_wf)
  with r' show ?thesis by (simp add: wf_slice_go_spawn)
qed

lemma Write_keeps_wf:
  assumes "wf_slice r (buffer e)" "Write d e r = Inr (n, e', r')"
  shows "wf_slice r' (buffer e')"
proof -
  from assms(2) obtain e1 r1 b where
    f: "(if 0 <s bufferMaxSize e \<and> bufferMaxSize e <s go_len (buffer e) + of_nat (length d)
         then flush e r else Inr (e, r)) = Inr (e1, r1)"
    and a: "go_append (buffer e1) d r1 = Inr (b, r')" and e': "e' = e1\<lparr>buffer := b\<rparr>"
    by (auto simp: Write_flush split: sum.splits prod.splits)
  from f assms(1) have "wf_slice r1 (buffer e1)"
    by (auto split: if_splits intro: flush_keeps_wf)
  from go_append_keeps_wf [OF this a] e' show ?thesis by simp
qed

lemma step_keeps_wf:
  assumes "wf_slice r (buffer e)" "step x e r = Inr (e', r')"
  shows "wf_slice r' (buffer e')"
proof (cases x)
  case (OpWrite d)
  then show ?thesis
    using assms by (auto split: sum.splits prod.splits intro: Write_keeps_wf)
next
  case (OpExport b)
  then show ?thesis using assms by (auto intro: Export_keeps_wf)
next
  case OpBytes
  then show ?thesis
    using assms by (auto simp: Bytes_def split: sum.splits prod.splits intro: bytes_keeps_wf)
next
  case OpReset
  then show ?thesis using assms by (auto simp: Reset_def intro: reset_keeps_wf)
next
  case (OpIntervalExport d)
  then show ?thesis
    using assms by (auto simp: IntervalExport_def wf_slice_def split: if_splits)
next
  case (OpTick i)
  then show ?thesis
    using assms by (auto simp: tick_flush split: if_splits intro: flush_keeps_wf)
qed

lemma run_keeps_wf:
  assumes "wf_slice r (buffer e)" "run ops e r = Inr (e', r')"
  shows "wf_slice r' (buffer e')"
  using assms
proof (induction ops arbitrary: e r)
  case Nil
  then show ?case by simp
next
  case (Cons x xs)
  from Cons.prems(2) obtain e1 r1 where
    s: "step x e r = Inr (e1, r1)" and r: "run xs e1 r1 = Inr (e', r')"
    by (auto split: sum.splits prod.splits)
  from step_keeps_wf [OF Cons.prems(1) s] r show ?case by (rule Cons.IH)
qed

lemma bytes_keeps_arrays:
  assumes "wf_slice r (buffer e)" "bytes e r = Inr (b, r')"
  shows "length (arrays r) \<le> length (arrays r')
         \<and> (\<forall>p<length (arrays r). arrays r' ! p = arrays r ! p)"
  using assms(2) bytes_wf [OF assms(1)] by (auto simp: nth_append)

lemma go_make_keeps_arrays:
  assumes "go_make n c r = Inr (s, r')"
  shows "ptr s = length (arrays r) \<and> length (arrays r) \<le> length (arrays r')
         \<and> (\<forall>p<length (arrays r). arrays r' ! p = arrays r ! p)"
  using assms by (auto simp: go_make_def nth_append split: if_splits)

lemma reset_keeps_arrays:
  assumes "reset e r = Inr (e', r')"
  shows "(ptr (buffer e') = ptr (buffer e) \<or> ptr (buffer e') = length (arrays r))
         \<and> length (arrays r) \<le> length (arrays r')
         \<and> (\<forall>p<length (arrays r). arrays r' ! p = arrays r ! p)"
  using assms
  by (auto simp: reset_def Let_def reslice0_def split: if_splits sum.splits
      dest!: go_make_keeps_arrays)

lemma flush_keeps_arrays:
  assumes "wf_slice r (buffer e)" "flush e r = Inr (e', r')"
  shows "(ptr (buffer e') = ptr (buffer e) \<or> length (arrays r) \<le> ptr (buffer e'))
         \<and> length (arrays r) \<le> length (arrays r')
         \<and> (\<forall>p<length (arrays r). arrays r' ! p = arrays r ! p)"
proof -
  from assms(2) obtain b r1 r2 where
    b: "bytes e r = Inr (b, r1)" and rs: "reset e r1 = Inr (e', r2)"
    and r': "r' = go_spawn (export e') b r2"
    by (auto simp: flush_def split: sum.splits prod.splits)
  from bytes_keeps_arrays [OF assms(1) b] reset_keeps_arrays [OF rs] r'
  show ?thesis by (auto simp: go_spawn_def)
qed

text \<open>A call of \<open>Write\<close> changes no array but the buffer's own.\<close>

lemma Write_keeps_others:
  assumes wf: "wf_slice r (buffer e)"
      and W: "Write d e r = Inr (n, e', r')"
      and p: "p < length (arrays r)" "p \<noteq> ptr (buffer e)"
  shows "p < length (arrays r') \<and> arrays r' ! p = arrays r ! p"
proof -
  from W obtain e1 r1 b where
    f: "(if 0 <s bufferMaxSize e \<and> bufferMaxSize e <s go_len (buffer e) + of_nat (length d)
         then flush e r else Inr (e, r)) = Inr (e1, r1)"
    and a: "go_append (buffer e1) d r1 = Inr (b, r')"
    by (auto simp: Write_flush split: sum.splits prod.splits)
  have wf1: "wf_slice r1 (buffer e1)"
    using f wf by (auto split: if_splits intro: flush_keeps_wf)
  have k1: "(ptr (buffer e1) = ptr (buffer e) \<or> length (arrays r) \<le> ptr (buffer e1))
         \<and> length (arrays r) \<le> length (arrays r1)
         \<and> (\<forall>p<length (arrays r). arrays r1 ! p = arrays r ! p)"
    using f flush_keeps_arrays [OF wf] by (auto split: if_splits)
  from go_append_wf [OF wf1 go_append_fits [OF wf1 a]] a have
    k2: "length (arrays r1) \<le> length (arrays r')"
      "\<forall>q<length (arrays r1). q \<noteq> ptr (buffer e1) \<longrightarrow> arrays r' ! q = arrays r1 ! q"
    by auto
  from k1 p have "p < length (arrays r1)" "p \<noteq> ptr (buffer e1)" "arrays r1 ! p = arrays r ! p"
    by auto
  with k2 show ?thesis by auto
qed

lemma elems_same_array:
  assumes "ptr s < length (arrays r)" "ptr s < length (arrays r')"
      and "arrays r' ! ptr s = arrays r ! ptr s"
  shows "elems r' s = elems r s"
  using assms by (simp add: elems_def array_of_def)

text \<open>So the buffer is well-formed in every state a program can reach.\<close>

lemma reachable_wf:
  assumes "New (Some f) c r0 = Inr ((Some e0, None), r1)" "run ops e0 r1 = Inr (e, r)"
  shows "wf_slice r (buffer e)"
proof -
  from New_wf [OF assms(1)] have "wf_slice r1 (buffer e0)" by simp
  then show ?thesis using assms(2) by (rule run_keeps_wf)
qed

text \<open>In fixed-capacity mode every reset leaves the buffer empty.\<close>

lemma reset_fixed_empties:
  assumes "0 < sint (bufferMaxSize e)" "wf_slice r (buffer e)"
  shows "\<exists>e' r'. reset e r = Inr (e', r') \<and> slen (buffer e') = 0"
  using reset_fixed [OF assms] by auto

section \<open>The flush count along a run\<close>

lemma go_make_not_div0: "go_make n c r \<noteq> Inl IntegerDivideByZero"
  by (simp add: go_make_def)

lemma go_append_not_div0: "go_append s d r \<noteq> Inl IntegerDivideByZero"
  by (simp add: go_append_def Let_def)

lemma bytes_not_div0: "bytes e r \<noteq> Inl IntegerDivideByZero"
  by (auto simp: bytes_def go_make_def split: sum.splits)

lemma reset_not_div0:
  assumes "bufCount e = of_nat j" "j < maxInt"
  shows "reset e r \<noteq> Inl IntegerDivideByZero"
proof -
  have "(of_nat (Suc j) :: goint) \<noteq> 0"
    using of_nat_goint_eq_0 [of "Suc j"] assms(2) by auto
  then have "bufCount e + 1 \<noteq> 0"
    unfolding assms(1) by (simp add: add.commute)
  then show ?thesis
    by (auto simp: reset_def go_div_def go_make_def Let_def split: sum.splits if_splits)
qed

lemma reset_bufCount:
  assumes "reset e r = Inr (e', r')"
  shows "bufCount e' = bufCount e \<or> bufCount e' = bufCount e + 1"
  using assms
  by (auto simp: reset_def go_div_def go_make_def Let_def split: sum.splits if_splits)

lemma counted_reset:
  assumes "counted k e" "reset e r = Inr (e', r')"
  shows "counted (Suc k) e'"
proof -
  from assms(1) obtain j where j: "j \<le> k" "bufCount e = of_nat j"
    by (auto simp: counted_def)
  from reset_bufCount [OF assms(2)] show ?thesis
  proof
    assume "bufCount e' = bufCount e"
    with j show ?thesis unfolding counted_def by (intro exI [of _ j]) simp
  next
    assume "bufCount e' = bufCount e + 1"
    with j have "bufCount e' = of_nat (Suc j)" by simp
    with j(1) show ?thesis unfolding counted_def by (intro exI [of _ "Suc j"]) simp
  qed
qed

lemma counted_reset_not_div0:
  assumes "counted k e" "k < maxInt"
  shows "reset e r \<noteq> Inl IntegerDivideByZero"
proof -
  from assms(1) obtain j where j: "j \<le> k" "bufCount e = of_nat j"
    by (auto simp: counted_def)
  with assms(2) have "j < maxInt" by simp
  with j(2) show ?thesis by (rule reset_not_div0)
qed

lemma counted_mono: "counted k e \<Longrightarrow> counted (Suc k) e"
  unfolding counted_def using le_SucI by blast

lemma counted_flush:
  assumes "counted k e" "k < maxInt"
  shows "flush e r \<noteq> Inl IntegerDivideByZero"
    and "flush e r = Inr (e', r') \<Longrightarrow> counted (Suc k) e'"
  using assms bytes_not_div0 [of e r]
  by (auto simp: flush_def split: sum.splits prod.splits
      dest: counted_reset_not_div0 counted_reset)

lemma counted_Export:
  assumes "counted k e" "k < maxInt"
  shows "Export b e r \<noteq> Inl IntegerDivideByZero"
    and "Export b e r = Inr (e', r') \<Longrightarrow> counted (Suc k) e'"
  using assms bytes_not_div0 [of e r]
  by (auto simp: Export_def split: sum.splits prod.splits if_splits
      dest: counted_reset_not_div0 counted_reset counted_mono)

lemma counted_Write:
  assumes "counted k e" "k < maxInt"
  shows "Write d e r \<noteq> Inl IntegerDivideByZero"
    and "Write d e r = Inr (n, e', r') \<Longrightarrow> counted (Suc k) e'"
proof -
  show "Write d e r \<noteq> Inl IntegerDivideByZero"
    using counted_flush(1) [OF assms, of r] go_append_not_div0
    by (auto simp: Write_flush split: sum.splits prod.splits if_splits)
  show "counted (Suc k) e'" if "Write d e r = Inr (n, e', r')"
    using that counted_flush(2) [OF assms, of r] counted_mono [OF assms(1)]
    by (auto simp: Write_flush counted_def split: sum.splits prod.splits if_splits)
qed

lemma counted_step:
  assumes "counted k e" "k < maxInt"
  shows "step x e r \<noteq> Inl IntegerDivideByZero"
    and "step x e r = Inr (e', r') \<Longrightarrow> counted (Suc k) e'"
proof -
  show "step x e r \<noteq> Inl IntegerDivideByZero"
    using counted_Write(1) [OF assms] counted_Export(1) [OF assms] counted_flush(1) [OF assms]
      counted_reset_not_div0 [OF assms] bytes_not_div0 [of e r]
    by (cases x) (auto simp: Reset_def Bytes_def tick_flush split: sum.splits prod.splits)
  show "counted (Suc k) e'" if "step x e r = Inr (e', r')"
    using that counted_Write(2) [OF assms] counted_Export(2) [OF assms] counted_flush(2) [OF assms]
      counted_reset [OF assms(1)] counted_mono [OF assms(1)]
    by (cases x) (auto simp: Reset_def Bytes_def tick_flush IntervalExport_def
        split: sum.splits prod.splits if_splits)
qed

lemma counted_run:
  assumes "counted k e" "k + length ops \<le> maxInt"
  shows "run ops e r \<noteq> Inl IntegerDivideByZero
         \<and> (\<forall>e' r'. run ops e r = Inr (e', r') \<longrightarrow> counted (k + length ops) e')"
  using assms
proof (induction ops arbitrary: k e r)
  case Nil
  then show ?case by simp
next
  case (Cons x xs)
  from Cons.prems have k: "k < maxInt" by simp
  show ?case
  proof (cases "step x e r")
    case (Inl p)
    with counted_step(1) [OF Cons.prems(1) k, of x r] show ?thesis by simp
  next
    case (Inr s)
    obtain e1 r1 where s: "s = (e1, r1)" by (cases s)
    from Inr s counted_step(2) [OF Cons.prems(1) k] have "counted (Suc k) e1" by simp
    moreover from Cons.prems(2) have "Suc k + length xs \<le> maxInt" by simp
    ultimately have "run xs e1 r1 \<noteq> Inl IntegerDivideByZero
         \<and> (\<forall>e' r'. run xs e1 r1 = Inr (e', r') \<longrightarrow> counted (Suc k + length xs) e')"
      by (rule Cons.IH)
    with Inr s show ?thesis by simp
  qed
qed


section \<open>The adaptive sink under every growth policy\<close>

text \<open>
  What \<open>reset\<close> does in adaptive mode while the counters are in the range of
  \<open>int\<close>, and from it the steps of an adaptive sink: a \<open>Write\<close> adds to the
  buffer, an \<open>Export(true)\<close> counts the buffer and either truncates it in place
  or replaces it. No step depends on the capacity \<open>append\<close> picks when it grows
  the buffer, so the runs of the adaptive scenario are the same under every
  growth policy.
\<close>

lemma reset_adaptive:
  assumes adaptive: "sint (bufferMaxSize e) \<le> 0"
      and mem: "slen (buffer e) \<le> maxAlloc r"
      and count: "bufCount e = of_nat k" "k < maxInt"
      and total: "totalBufSize e = of_nat t" "2 * (t + slen (buffer e)) \<le> maxInt"
  shows "reset e r =
      (if slen (buffer e) \<le> 2 * ((t + slen (buffer e)) div (k + 1))
       then Inr (e\<lparr>bufCount := of_nat (k + 1),
                   totalBufSize := of_nat (t + slen (buffer e)),
                   buffer := (buffer e)\<lparr>slen := 0\<rparr>\<rparr>, r)
       else Inr (e\<lparr>bufCount := of_nat (k + 1),
                   totalBufSize := of_nat (t + slen (buffer e)),
                   buffer := \<lparr>ptr = length (arrays r),
                              slen = (t + slen (buffer e)) div (k + 1),
                              scap = (t + slen (buffer e)) div (k + 1)\<rparr>\<rparr>,
                 r\<lparr>arrays := arrays r @ [replicate ((t + slen (buffer e)) div (k + 1)) 0]\<rparr>))"
proof -
  define n where "n = slen (buffer e)"
  define avg where "avg = (t + n) div (k + 1)"
  have le: "avg \<le> t + n"
    unfolding avg_def by (rule div_le_dividend)
  have n: "n \<le> maxInt" and tn: "t + n \<le> maxInt"
    using total(2) by (simp_all add: n_def)
  have avg2: "2 * avg \<le> maxInt" and avgm: "avg \<le> maxInt"
    using total(2) le by (simp_all add: n_def)
  have nm: "n \<le> maxAlloc r" using mem by (simp add: n_def)
  have cnt: "bufCount e + 1 = of_nat (k + 1)" using count by simp
  have tot: "totalBufSize e + go_len (buffer e) = of_nat (t + n)"
    using total by (simp add: go_len_def n_def)
  have "go_div (of_nat (t + n)) (of_nat (k + 1)) = Inr (of_nat avg)"
    unfolding avg_def using tn count(2) by (intro go_div_nat) auto
  then have dv: "go_div (totalBufSize e + go_len (buffer e)) (bufCount e + 1) = Inr (of_nat avg)"
    by (simp only: cnt tot)
  have m2: "(of_nat avg :: goint) * 2 = of_nat (2 * avg)" by simp
  have cmp: "go_len (buffer e) \<le>s of_nat avg * 2 \<longleftrightarrow> n \<le> 2 * avg"
    unfolding m2 go_len_def n_def [symmetric] using n avg2 by (rule sle_of_nat)
  have R: "reset e r =
      (if n \<le> 2 * avg
       then Inr (e\<lparr>bufCount := bufCount e + 1,
                   totalBufSize := totalBufSize e + go_len (buffer e),
                   buffer := (buffer e)\<lparr>slen := 0\<rparr>\<rparr>, r)
       else Inr (e\<lparr>bufCount := bufCount e + 1,
                   totalBufSize := totalBufSize e + go_len (buffer e),
                   buffer := \<lparr>ptr = length (arrays r), slen = avg, scap = avg\<rparr>\<rparr>,
                 r\<lparr>arrays := arrays r @ [replicate avg 0]\<rparr>))"
  proof (cases "n \<le> 2 * avg")
    case True
    then show ?thesis
      using adaptive by (simp add: reset_def Let_def word_sless_alt dv cmp reslice0_def)
  next
    case False
    then have "avg \<le> maxAlloc r" using nm by simp
    from make_nat [OF avgm this] False show ?thesis
      using adaptive by (simp add: reset_def Let_def word_sless_alt dv cmp)
  qed
  show ?thesis
    unfolding R n_def [symmetric] avg_def [symmetric] by (simp only: cnt tot)
qed

lemma run_append:
  "run (xs @ ys) e r =
     (case run xs e r of Inl p \<Rightarrow> Inl p | Inr (e', r') \<Rightarrow> run ys e' r')"
  by (induction xs arbitrary: e r) (auto split: sum.splits)

lemma alloc_le_maxInt: "(2::nat) ^ 48 \<le> maxInt"
  by (simp add: maxInt_num)

lemma adaptive_Write:
  assumes a: "adaptive_at r e k t n" and fits: "n + length d \<le> 2 ^ 48"
      and n': "n' = n + length d"
  shows "\<exists>e' r'. Write d e r = Inr ((of_nat (length d), None), e', r')
           \<and> adaptive_at r' e' k t n'"
proof -
  from a have wf: "wf_slice r (buffer e)" and m: "maxAlloc r = 2 ^ 48"
    and z: "bufferMaxSize e = 0" and n: "slen (buffer e) = n"
    by (simp_all add: adaptive_at_def)
  have nf: "\<not> (0 < sint (bufferMaxSize e)
                  \<and> sint (bufferMaxSize e) < int (slen (buffer e) + length d))"
    using z by simp
  have f1: "slen (buffer e) + length d \<le> maxInt"
    using fits n alloc_le_maxInt by simp
  have f2: "slen (buffer e) + length d \<le> maxAlloc r" using fits n m by simp
  from Write_no_flush [OF wf nf f1 f2] obtain b' r' where
    W: "Write d e r = Inr ((of_nat (length d), None), e\<lparr>buffer := b'\<rparr>, r')"
    and wf': "wf_slice r' b'" and el: "elems r' b' = elems r (buffer e) @ d"
    and m': "maxAlloc r' = maxAlloc r"
    by blast
  have "length (elems r' b') = slen b'" using wf' by (rule elems_length)
  moreover have "length (elems r (buffer e)) = slen (buffer e)" using wf by (rule elems_length)
  ultimately have "slen b' = n + length d" using el n by simp
  with a wf' m' n' have "adaptive_at r' (e\<lparr>buffer := b'\<rparr>) k t n'"
    by (simp add: adaptive_at_def)
  with W show ?thesis by blast
qed

lemma adaptive_Export:
  assumes a: "adaptive_at r e k t n" and k: "k < maxInt" and tn: "2 * (t + n) \<le> maxInt"
  shows "\<exists>e' r'. Export True e r = Inr (e', r')
           \<and> (if n \<le> 2 * ((t + n) div (k + 1))
               then adaptive_at r' e' (k + 1) (t + n) 0
                    \<and> ptr (buffer e') = ptr (buffer e) \<and> ptr (buffer e) < length (arrays r)
               else adaptive_at r' e' (k + 1) (t + n) ((t + n) div (k + 1))
                    \<and> length (arrays r) \<le> ptr (buffer e')
                    \<and> scap (buffer e') = (t + n) div (k + 1))"
proof -
  let ?b = "buffer e"
  let ?avg = "(t + n) div (k + 1)"
  let ?snap = "\<lparr>ptr = length (arrays r), slen = slen ?b, scap = slen ?b\<rparr>"
  let ?r1 = "r\<lparr>arrays := arrays r @ [elems r ?b]\<rparr>"
  from a have wf: "wf_slice r ?b" and m: "maxAlloc r = 2 ^ 48"
    and z: "bufferMaxSize e = 0" and n: "slen ?b = n"
    and c: "bufCount e = of_nat k" and tt: "totalBufSize e = of_nat t"
    by (simp_all add: adaptive_at_def)
  have bt: "bytes e r = Inr (?snap, ?r1)" using wf by (rule bytes_wf)
  have wf1: "wf_slice ?r1 ?b" using wf by (rule wf_slice_older)
  have ad: "sint (bufferMaxSize e) \<le> 0" using z by simp
  have tn': "2 * (t + slen ?b) \<le> maxInt" using tn n by simp
  have p: "ptr ?b < length (arrays r)" and cap: "scap ?b \<le> maxAlloc r" "slen ?b \<le> scap ?b"
    using wf by (simp_all add: wf_slice_def)
  have mem1: "slen ?b \<le> maxAlloc ?r1" using cap by simp
  note rs = reset_adaptive [OF ad mem1 c k tt tn', unfolded n]
  show ?thesis
  proof (cases "n \<le> 2 * ?avg")
    case True
    let ?e' = "e\<lparr>bufCount := of_nat (k + 1), totalBufSize := of_nat (t + n),
                 buffer := ?b\<lparr>slen := 0\<rparr>\<rparr>"
    let ?r' = "go_spawn (export e) ?snap ?r1"
    have E: "Export True e r = Inr (?e', ?r')"
      using True by (simp add: Export_def bt rs)
    have "wf_slice ?r' (?b\<lparr>slen := 0\<rparr>)"
      using wf1 by (simp add: wf_slice_def go_spawn_def)
    then have "adaptive_at ?r' ?e' (k + 1) (t + n) 0"
      using m z by (simp add: adaptive_at_def go_spawn_def del: of_nat_add of_nat_Suc)
    with E True p show ?thesis by (intro exI [of _ ?e'] exI [of _ ?r']) simp
  next
    case False
    let ?nb = "\<lparr>ptr = length (arrays ?r1), slen = ?avg, scap = ?avg\<rparr>"
    let ?e' = "e\<lparr>bufCount := of_nat (k + 1), totalBufSize := of_nat (t + n), buffer := ?nb\<rparr>"
    let ?r' = "go_spawn (export e) ?snap (?r1\<lparr>arrays := arrays ?r1 @ [replicate ?avg 0]\<rparr>)"
    have E: "Export True e r = Inr (?e', ?r')"
      using False by (simp add: Export_def bt rs)
    have "?avg \<le> t + n" by (rule div_le_dividend)
    moreover have "t + n \<le> maxInt" using tn by simp
    ultimately have am: "?avg \<le> maxInt" by (rule le_trans)
    have "?avg \<le> n" using False by simp
    then have aa: "?avg \<le> maxAlloc r" using n cap by simp
    have "wf_slice ?r' ?nb"
      using am aa by (simp add: wf_slice_def go_spawn_def nth_append)
    then have "adaptive_at ?r' ?e' (k + 1) (t + n) ?avg"
      using m z by (simp add: adaptive_at_def go_spawn_def del: of_nat_add of_nat_Suc)
    with E False show ?thesis by (intro exI [of _ ?e'] exI [of _ ?r']) simp
  qed
qed

lemma adaptive_Export_reuse:
  assumes a: "adaptive_at r e k t n" and k: "k < maxInt" and tn: "2 * (t + n) \<le> maxInt"
      and c: "n \<le> 2 * ((t + n) div (k + 1))" and k': "k' = k + 1" and t': "t' = t + n"
  shows "\<exists>e' r'. Export True e r = Inr (e', r') \<and> adaptive_at r' e' k' t' 0
           \<and> ptr (buffer e') = ptr (buffer e) \<and> ptr (buffer e) < length (arrays r)"
  using adaptive_Export [OF a k tn] c unfolding k' t' by (simp only: if_True)

lemma adaptive_Export_realloc:
  assumes a: "adaptive_at r e k t n" and k: "k < maxInt" and tn: "2 * (t + n) \<le> maxInt"
      and c: "\<not> n \<le> 2 * ((t + n) div (k + 1))" and k': "k' = k + 1" and t': "t' = t + n"
      and avg: "avg = (t + n) div (k + 1)"
  shows "\<exists>e' r'. Export True e r = Inr (e', r') \<and> adaptive_at r' e' k' t' avg
           \<and> length (arrays r) \<le> ptr (buffer e') \<and> scap (buffer e') = avg"
  using adaptive_Export [OF a k tn] c unfolding k' t' avg by (simp only: if_False)

lemma New_adaptive:
  "\<exists>e r. New (Some f) 0 (rt_init g) = Inr ((Some e, None), r) \<and> adaptive_at r e 0 0 0"
  by (simp add: New_def go_make_0 rt_init_def adaptive_at_def wf_slice_def maxInt_num)

lemma small_count: "(0::nat) < maxInt" "(1::nat) < maxInt" "(2::nat) < maxInt" "(3::nat) < maxInt"
  by (simp_all add: maxInt_num)

lemma small_total:
  "2 * ((0::nat) + 10) \<le> maxInt" "2 * ((10::nat) + 10) \<le> maxInt"
  "2 * ((20::nat) + 10) \<le> maxInt" "2 * ((30::nat) + 25) \<le> maxInt"
  "2 * ((30::nat) + 31) \<le> maxInt"
  by (simp_all add: maxInt_num)

lemma write10: "(0::nat) + length (replicate 10 (x::byte)) \<le> 2 ^ 48"
  "(10::nat) = 0 + length (replicate 10 (x::byte))"
  by simp_all

lemma three_flushes_run:
  assumes a: "adaptive_at r e 0 0 0"
  shows "\<exists>e' r'. run three_flushes e r = Inr (e', r') \<and> adaptive_at r' e' 3 30 0"
proof -
  from adaptive_Write [OF a write10 [of 1]] obtain e1 r1 where
    s1: "Write (replicate 10 1) e r = Inr ((of_nat (length (replicate 10 (1 :: byte))), None), e1, r1)"
    and a1: "adaptive_at r1 e1 0 0 10"
    by blast
  have c1: "(10::nat) \<le> 2 * ((0 + 10) div (0 + 1))" "(1::nat) = 0 + 1" "(10::nat) = 0 + 10"
    by simp_all
  from adaptive_Export_reuse [OF a1 small_count(1) small_total(1) c1] obtain e2 r2 where
    s2: "Export True e1 r1 = Inr (e2, r2)" and a2: "adaptive_at r2 e2 1 10 0"
    by blast
  from adaptive_Write [OF a2 write10 [of 2]] obtain e3 r3 where
    s3: "Write (replicate 10 2) e2 r2 = Inr ((of_nat (length (replicate 10 (2 :: byte))), None), e3, r3)"
    and a3: "adaptive_at r3 e3 1 10 10"
    by blast
  have c2: "(10::nat) \<le> 2 * ((10 + 10) div (1 + 1))" "(2::nat) = 1 + 1" "(20::nat) = 10 + 10"
    by (simp_all del: One_nat_def)
  from adaptive_Export_reuse [OF a3 small_count(2) small_total(2) c2] obtain e4 r4 where
    s4: "Export True e3 r3 = Inr (e4, r4)" and a4: "adaptive_at r4 e4 2 20 0"
    by blast
  from adaptive_Write [OF a4 write10 [of 3]] obtain e5 r5 where
    s5: "Write (replicate 10 3) e4 r4 = Inr ((of_nat (length (replicate 10 (3 :: byte))), None), e5, r5)"
    and a5: "adaptive_at r5 e5 2 20 10"
    by blast
  have c3: "(10::nat) \<le> 2 * ((20 + 10) div (2 + 1))" "(3::nat) = 2 + 1" "(30::nat) = 20 + 10"
    by simp_all
  from adaptive_Export_reuse [OF a5 small_count(3) small_total(3) c3] obtain e6 r6 where
    s6: "Export True e5 r5 = Inr (e6, r6)" and a6: "adaptive_at r6 e6 3 30 0"
    by blast
  have "run three_flushes e r = Inr (e6, r6)"
    unfolding three_flushes_def by (simp only: run.simps step.simps s1 s2 s3 s4 s5 s6 sum.case prod.case)
  with a6 show ?thesis by blast
qed

lemma scenario_run:
  assumes n: "n \<le> 100"
  shows "\<exists>e3 r3 e4 r4.
           run_from (rt_init g) f 0 three_flushes = Inr (e3, r3) \<and> adaptive_at r3 e3 3 30 0
           \<and> run_from (rt_init g) f 0 (adaptive_scenario n) = Inr (e4, r4)
           \<and> adaptive_at r4 e4 3 30 n
           \<and> run_from (rt_init g) f 0 (adaptive_scenario n @ [OpExport True])
               = Export True e4 r4"
proof -
  from New_adaptive [of f g] obtain e0 r0 where
    new: "New (Some f) 0 (rt_init g) = Inr ((Some e0, None), r0)" and a0: "adaptive_at r0 e0 0 0 0"
    by blast
  from three_flushes_run [OF a0] obtain e3 r3 where
    r3: "run three_flushes e0 r0 = Inr (e3, r3)" and a3: "adaptive_at r3 e3 3 30 0"
    by blast
  have w: "0 + length (replicate n (4::byte)) \<le> 2 ^ 48" "n = 0 + length (replicate n (4::byte))"
    using n by simp_all
  from adaptive_Write [OF a3 w] obtain e4 r4 where
    s4: "Write (replicate n 4) e3 r3 = Inr ((of_nat (length (replicate n (4 :: byte))), None), e4, r4)"
    and a4: "adaptive_at r4 e4 3 30 n"
    by blast
  have "run_from (rt_init g) f 0 three_flushes = Inr (e3, r3)"
    by (simp add: run_from_def new r3)
  moreover have "run_from (rt_init g) f 0 (adaptive_scenario n) = Inr (e4, r4)"
    by (simp add: run_from_def new adaptive_scenario_def run_append r3 s4)
  moreover have "run_from (rt_init g) f 0 (adaptive_scenario n @ [OpExport True])
               = Export True e4 r4"
    by (simp add: run_from_def new adaptive_scenario_def run_append r3 s4 split: sum.splits)
  ultimately show ?thesis using a3 a4 by blast
qed

lemma averages: "go_div 30 3 = Inr 10" "go_div 55 4 = Inr 13" "go_div 61 4 = Inr 15"
  by (simp_all add: go_div_def signed_divide_int_def)

lemma after_three_flushes:
  "observe (run_from (rt_init g) f 0 three_flushes) = Inr (0, 30, 3)"
  "average (run_from (rt_init g) f 0 three_flushes) = Inr 10"
proof -
  have "(0::nat) \<le> 100" by simp
  from scenario_run [OF this, of g f] obtain e3 r3 where
    "run_from (rt_init g) f 0 three_flushes = Inr (e3, r3)" "adaptive_at r3 e3 3 30 0"
    by blast
  then show "observe (run_from (rt_init g) f 0 three_flushes) = Inr (0, 30, 3)"
    "average (run_from (rt_init g) f 0 three_flushes) = Inr 10"
    by (simp_all add: observe_def average_def adaptive_at_def averages)
qed

lemma fourth_flush_25:
  "observe (run_from (rt_init g) f 0 (adaptive_scenario 25)) = Inr (25, 30, 3)"
  "observe (run_from (rt_init g) f 0 (adaptive_scenario 25 @ [OpExport True])) = Inr (0, 55, 4)"
  "average (run_from (rt_init g) f 0 (adaptive_scenario 25 @ [OpExport True])) = Inr 13"
  "reused (run_from (rt_init g) f 0 (adaptive_scenario 25))
          (run_from (rt_init g) f 0 (adaptive_scenario 25 @ [OpExport True]))"
  "\<not> reallocated (run_from (rt_init g) f 0 (adaptive_scenario 25))
                  (run_from (rt_init g) f 0 (adaptive_scenario 25 @ [OpExport True]))"
proof -
  have "(25::nat) \<le> 100" by simp
  from scenario_run [OF this, of g f] obtain e4 r4 where
    b: "run_from (rt_init g) f 0 (adaptive_scenario 25) = Inr (e4, r4)"
    and a4: "adaptive_at r4 e4 3 30 25"
    and c: "run_from (rt_init g) f 0 (adaptive_scenario 25 @ [OpExport True])
               = Export True e4 r4"
    by blast
  have c4: "(25::nat) \<le> 2 * ((30 + 25) div (3 + 1))" "(4::nat) = 3 + 1" "(55::nat) = 30 + 25"
    by simp_all
  from adaptive_Export_reuse [OF a4 small_count(4) small_total(4) c4] obtain e5 r5 where
    s5: "Export True e4 r4 = Inr (e5, r5)" and a5: "adaptive_at r5 e5 4 55 0"
    and p: "ptr (buffer e5) = ptr (buffer e4)" "ptr (buffer e4) < length (arrays r4)"
    by blast
  show "observe (run_from (rt_init g) f 0 (adaptive_scenario 25)) = Inr (25, 30, 3)"
    using a4 by (simp add: b observe_def adaptive_at_def)
  show "observe (run_from (rt_init g) f 0 (adaptive_scenario 25 @ [OpExport True])) = Inr (0, 55, 4)"
    using a5 by (simp add: c s5 observe_def adaptive_at_def)
  show "average (run_from (rt_init g) f 0 (adaptive_scenario 25 @ [OpExport True])) = Inr 13"
    using a5 by (simp add: c s5 average_def adaptive_at_def averages)
  show "reused (run_from (rt_init g) f 0 (adaptive_scenario 25))
          (run_from (rt_init g) f 0 (adaptive_scenario 25 @ [OpExport True]))"
    using p by (simp add: b c s5 reused_def)
  show "\<not> reallocated (run_from (rt_init g) f 0 (adaptive_scenario 25))
                  (run_from (rt_init g) f 0 (adaptive_scenario 25 @ [OpExport True]))"
    using p by (simp add: b c s5 reallocated_def)
qed

lemma fourth_flush_31:
  "observe (run_from (rt_init g) f 0 (adaptive_scenario 31)) = Inr (31, 30, 3)"
  "observe (run_from (rt_init g) f 0 (adaptive_scenario 31 @ [OpExport True])) = Inr (15, 61, 4)"
  "average (run_from (rt_init g) f 0 (adaptive_scenario 31 @ [OpExport True])) = Inr 15"
  "reallocated (run_from (rt_init g) f 0 (adaptive_scenario 31))
               (run_from (rt_init g) f 0 (adaptive_scenario 31 @ [OpExport True]))"
  "buffer_cap (run_from (rt_init g) f 0 (adaptive_scenario 31 @ [OpExport True])) = Inr 15"
proof -
  have "(31::nat) \<le> 100" by simp
  from scenario_run [OF this, of g f] obtain e4 r4 where
    b: "run_from (rt_init g) f 0 (adaptive_scenario 31) = Inr (e4, r4)"
    and a4: "adaptive_at r4 e4 3 30 31"
    and c: "run_from (rt_init g) f 0 (adaptive_scenario 31 @ [OpExport True])
               = Export True e4 r4"
    by blast
  have c4: "\<not> (31::nat) \<le> 2 * ((30 + 31) div (3 + 1))" "(4::nat) = 3 + 1" "(61::nat) = 30 + 31"
    "(15::nat) = (30 + 31) div (3 + 1)"
    by simp_all
  from adaptive_Export_realloc [OF a4 small_count(4) small_total(5) c4] obtain e5 r5 where
    s5: "Export True e4 r4 = Inr (e5, r5)" and a5: "adaptive_at r5 e5 4 61 15"
    and p: "length (arrays r4) \<le> ptr (buffer e5)" "scap (buffer e5) = 15"
    by blast
  show "observe (run_from (rt_init g) f 0 (adaptive_scenario 31)) = Inr (31, 30, 3)"
    using a4 by (simp add: b observe_def adaptive_at_def)
  show "observe (run_from (rt_init g) f 0 (adaptive_scenario 31 @ [OpExport True])) = Inr (15, 61, 4)"
    using a5 by (simp add: c s5 observe_def adaptive_at_def)
  show "average (run_from (rt_init g) f 0 (adaptive_scenario 31 @ [OpExport True])) = Inr 15"
    using a5 by (simp add: c s5 average_def adaptive_at_def averages)
  show "reallocated (run_from (rt_init g) f 0 (adaptive_scenario 31))
               (run_from (rt_init g) f 0 (adaptive_scenario 31 @ [OpExport True]))"
    using p by (simp add: b c s5 reallocated_def)
  show "buffer_cap (run_from (rt_init g) f 0 (adaptive_scenario 31 @ [OpExport True])) = Inr 15"
    using p by (simp add: c s5 buffer_cap_def)
qed

text \<open>The equations that evaluate a run on concrete bytes.\<close>

lemmas go_builtin_defs =
  go_make_def go_len_def go_div_def go_append_def go_copy_def go_spawn_def
  elems_def array_of_def store_def newcap_def reslice0_def maxInt_num
  word_sle_eq word_sless_alt signed_divide_int_def Let_def

lemmas sink_defs =
  New_def Write_def Export_def Reset_def reset_def Bytes_def bytes_def flush_def
  tick_def IntervalExport_def

lemmas run_defs = run_new_def run_from_def rt0_eq

section \<open>Construction\<close>

text \<open>
  C7. \<open>New\<close> returns the error \<open>ErrExportFuncNotSet\<close> (and no sink) exactly when
  the exporter is nil, and then leaves the runtime as it was. Whenever it
  returns a sink there is no error, and the sink's buffer has length 0 and
  the capacity \<open>bufferMaxSize\<close> when that is positive, 0 otherwise. With an
  exporter it returns a sink exactly when that capacity is within the
  runtime's \<open>maxAlloc\<close>; above it, \<open>make\<close> panics with "cap out of range".
\<close>

theorem New_fails_iff_export_missing:
  "((\<exists>r'. New x c r = Inr ((None, Some ErrExportFuncNotSet), r')) \<longleftrightarrow> x = None)
   \<and> (x = None \<longrightarrow> New x c r = Inr ((None, Some ErrExportFuncNotSet), r))
   \<and> (\<forall>e err r'. New x c r = Inr ((Some e, err), r') \<longrightarrow>
         err = None \<and> x = Some (export e) \<and> bufferMaxSize e = c
         \<and> slen (buffer e) = 0 \<and> elems r' (buffer e) = []
         \<and> int (scap (buffer e)) = (if 0 < sint c then sint c else 0)
         \<and> length (array_of r' (ptr (buffer e))) = scap (buffer e))
   \<and> (x \<noteq> None \<longrightarrow>
         ((\<exists>e r'. New x c r = Inr ((Some e, None), r')) \<longleftrightarrow> nat (sint c) \<le> maxAlloc r)
         \<and> (maxAlloc r < nat (sint c) \<longrightarrow> New x c r = Inl MakesliceCapOutOfRange))"
proof (cases x)
  case None
  then show ?thesis by (simp add: New_def)
next
  case (Some f)
  show ?thesis
  proof (cases "0 < sint c")
    case True
    then have "\<not> sint c < 0" by simp
    with True Some show ?thesis
      by (auto simp: New_def go_make_0 word_sless_alt elems_def array_of_def)
  next
    case False
    with Some show ?thesis
      by (auto simp: New_def go_make_0 word_sless_alt elems_def array_of_def)
  qed
qed

theorem New_fails_iff_export_missing_witness:
  "New (None :: unit option) 10 rt0 = Inr ((None, Some ErrExportFuncNotSet), rt0)
   \<and> nat (sint (10 :: goint)) \<le> maxAlloc (rt0 :: unit rt)
   \<and> (\<exists>e r'. New (Some ()) 10 rt0 = Inr ((Some e, None), r')
         \<and> slen (buffer e) = 0 \<and> int (scap (buffer e)) = 10)
   \<and> (\<exists>e r'. New (Some ()) 0 rt0 = Inr ((Some e, None), r')
         \<and> slen (buffer e) = 0 \<and> int (scap (buffer e)) = 0)
   \<and> maxAlloc (rt0 :: unit rt) < nat (sint (4611686018427387904 :: goint))
   \<and> New (Some ()) 4611686018427387904 (rt0 :: unit rt) = Inl MakesliceCapOutOfRange"
proof -
  have m: "maxAlloc (rt0 :: unit rt) = 281474976710656" by (simp add: rt0_eq)
  have big: "maxAlloc (rt0 :: unit rt) < nat (sint (4611686018427387904 :: goint))"
    by (simp add: m)
  have a: "nat (sint (10 :: goint)) \<le> maxAlloc (rt0 :: unit rt)"
    and b: "nat (sint (0 :: goint)) \<le> maxAlloc (rt0 :: unit rt)"
    by (simp_all add: m)
  from New_fails_iff_export_missing [of "None :: unit option" 10 rt0]
  have 1: "New (None :: unit option) 10 rt0 = Inr ((None, Some ErrExportFuncNotSet), rt0)"
    by simp
  from New_fails_iff_export_missing [of "Some ()" 10 rt0] a
  have 2: "\<exists>e r'. New (Some ()) 10 rt0 = Inr ((Some e, None), r')
         \<and> slen (buffer e) = 0 \<and> int (scap (buffer e)) = 10"
    by fastforce
  from New_fails_iff_export_missing [of "Some ()" 0 rt0] b
  have 3: "\<exists>e r'. New (Some ()) 0 rt0 = Inr ((Some e, None), r')
         \<and> slen (buffer e) = 0 \<and> int (scap (buffer e)) = 0"
    by fastforce
  from New_fails_iff_export_missing [of "Some ()" 4611686018427387904 "rt0 :: unit rt"] big
  have 4: "New (Some ()) 4611686018427387904 (rt0 :: unit rt) = Inl MakesliceCapOutOfRange"
    by simp
  from 1 a 2 3 big 4 show ?thesis by (intro conjI)
qed

section \<open>The interval export\<close>

text \<open>
  C8. For every period \<open>\<le> 0\<close>, \<open>IntervalExport\<close> returns the error
  \<open>ErrNegativeOrZeroInterval\<close> and a nil handle, and leaves the sink and the
  runtime as they were, so that every later call behaves as if it had not been
  made. For every period \<open>> 0\<close> it returns a handle and no error, and the
  handle is that of a ticker with the requested period.
\<close>

theorem IntervalExport_rejects_nonpositive:
  "(sint d \<le> 0 \<longrightarrow>
      IntervalExport d e r = ((None, Some ErrNegativeOrZeroInterval), e, r)
      \<and> run (OpIntervalExport d # ops) e r = run ops e r)
   \<and> (0 < sint d \<longrightarrow>
      (\<exists>h r'. IntervalExport d e r = ((Some h, None), e, r')
         \<and> tickers r' = tickers r @ [d] \<and> tickers r' ! h = d))"
  by (auto simp: IntervalExport_def word_sle_eq)

theorem IntervalExport_rejects_nonpositive_witness:
  "sint (0 :: goint) \<le> 0
   \<and> IntervalExport 0 sink10 rt10 = ((None, Some ErrNegativeOrZeroInterval), sink10, rt10)
   \<and> run [OpIntervalExport 0, OpWrite [1]] sink10 rt10 = run [OpWrite [1]] sink10 rt10
   \<and> 0 < sint (5 :: goint)
   \<and> (\<exists>h r'. IntervalExport 5 sink10 rt10 = ((Some h, None), sink10, r')
         \<and> tickers r' = [5])"
  using IntervalExport_rejects_nonpositive [of 0 sink10 rt10 "[OpWrite [1]]"]
    IntervalExport_rejects_nonpositive [of 5 sink10 rt10 "[]"]
  by (auto simp: rt10_def rt0_eq)

section \<open>The reset policy\<close>

text \<open>
  C1. The claim is that the buffer is empty after every reset. In adaptive mode
  the branch that replaces the buffer calls \<open>make([]byte, avgBufSize)\<close>, which
  gives a slice of \<open>avgBufSize\<close> zero bytes, where the fixed-capacity branch
  calls \<open>make([]byte, 0, e.bufferMaxSize)\<close>. On a new adaptive sink, after
  \<open>Reset()\<close>, \<open>Write\<close> of three bytes and \<open>Reset()\<close>, the average is 3 / 2 = 1,
  the length 3 exceeds 2, and \<open>Bytes()\<close> returns one zero byte.
\<close>

theorem adaptive_reset_leaves_zero_byte:
  "bytes_after (run_new () 0 [OpReset, OpWrite [1, 2, 3], OpReset]) = Inr [0]"
  by (simp add: bytes_after_def run_defs sink_defs go_builtin_defs)

text \<open>
  C2, as stated: after three flushes of ten bytes, a fourth flush of a buffer
  of 25 bytes would give the sink a freshly allocated buffer. It does not: the
  buffer after the fourth flush is the array the 25 bytes were in.
\<close>

theorem fourth_flush_of_25_not_reallocated:
  "\<not> reallocated (run_new () 0 (adaptive_scenario 25))
                  (run_new () 0 (adaptive_scenario 25 @ [OpExport True]))"
  by (simp add: reallocated_def adaptive_scenario_def three_flushes_def
      run_defs sink_defs go_builtin_defs)

text \<open>
  C2, amended. Under every growth policy of the runtime: after three flushes
  of ten bytes the total is 30 and the count 3, so the average is 10. The
  fourth flush compares the buffer with the average that already counts it.
  With 25 bytes in the buffer that average is 55 / 4 = 13, and 25 \<open>\<le>\<close> 26, so
  the buffer is truncated in place: it is the array the 25 bytes were in, not
  a fresh one. With 31 bytes the average is 61 / 4 = 15, 31 exceeds 30, and
  the buffer is freshly allocated, with capacity 15 (and length 15).
\<close>

theorem fourth_flush_uses_updated_average:
  "observe (run_from (rt_init g) f 0 three_flushes) = Inr (0, 30, 3)
   \<and> average (run_from (rt_init g) f 0 three_flushes) = Inr 10
   \<and> observe (run_from (rt_init g) f 0 (adaptive_scenario 25)) = Inr (25, 30, 3)
   \<and> observe (run_from (rt_init g) f 0 (adaptive_scenario 25 @ [OpExport True])) = Inr (0, 55, 4)
   \<and> average (run_from (rt_init g) f 0 (adaptive_scenario 25 @ [OpExport True])) = Inr 13
   \<and> reused (run_from (rt_init g) f 0 (adaptive_scenario 25))
            (run_from (rt_init g) f 0 (adaptive_scenario 25 @ [OpExport True]))
   \<and> \<not> reallocated (run_from (rt_init g) f 0 (adaptive_scenario 25))
                    (run_from (rt_init g) f 0 (adaptive_scenario 25 @ [OpExport True]))
   \<and> observe (run_from (rt_init g) f 0 (adaptive_scenario 31)) = Inr (31, 30, 3)
   \<and> observe (run_from (rt_init g) f 0 (adaptive_scenario 31 @ [OpExport True])) = Inr (15, 61, 4)
   \<and> average (run_from (rt_init g) f 0 (adaptive_scenario 31 @ [OpExport True])) = Inr 15
   \<and> reallocated (run_from (rt_init g) f 0 (adaptive_scenario 31))
                  (run_from (rt_init g) f 0 (adaptive_scenario 31 @ [OpExport True]))
   \<and> buffer_cap (run_from (rt_init g) f 0 (adaptive_scenario 31 @ [OpExport True])) = Inr 15"
  using after_three_flushes [of g f] fourth_flush_25 [of g f] fourth_flush_31 [of g f]
  by (intro conjI)

text \<open>
  C4. In adaptive mode (\<open>bufferMaxSize \<le> 0\<close>), with the counters in the range
  where \<open>int\<close> does not overflow and a buffer no longer than what the runtime
  allocates (as every buffer in memory is), \<open>reset\<close> does what the policy
  says: the flush count goes up by one, the length of the buffer is added to
  the total, the average is the new total divided by the new count (rounded
  down), and the buffer is truncated in place, the runtime untouched, when its
  length is at most twice the average; otherwise the buffer is a new array of
  capacity \<open>avg\<close>. (That new slice has length \<open>avg\<close>, too.)
\<close>

theorem adaptive_reset_policy:
  assumes adaptive: "sint (bufferMaxSize e) \<le> 0"
      and mem: "slen (buffer e) \<le> maxAlloc r"
      and count: "bufCount e = of_nat k" "k < maxInt"
      and total: "totalBufSize e = of_nat t" "2 * (t + slen (buffer e)) \<le> maxInt"
  shows "case adaptive_policy k t (slen (buffer e)) of
           (k', t', avg, in_place) \<Rightarrow>
             (\<exists>e' r'. reset e r = Inr (e', r')
                \<and> bufCount e' = of_nat k' \<and> totalBufSize e' = of_nat t'
                \<and> export e' = export e \<and> bufferMaxSize e' = bufferMaxSize e
                \<and> (if in_place
                    then buffer e' = (buffer e)\<lparr>slen := 0\<rparr> \<and> r' = r
                    else ptr (buffer e') = length (arrays r) \<and> scap (buffer e') = avg
                         \<and> slen (buffer e') = avg
                         \<and> r' = r\<lparr>arrays := arrays r @ [replicate avg 0]\<rparr>))"
  unfolding adaptive_policy_def Let_def reset_adaptive [OF adaptive mem count total]
  by (simp del: of_nat_add of_nat_Suc)

theorem adaptive_reset_policy_witness:
  "sint (bufferMaxSize sink_adaptive) \<le> 0
   \<and> slen (buffer sink_adaptive) \<le> maxAlloc rt_adaptive
   \<and> bufCount sink_adaptive = of_nat 3 \<and> 3 < maxInt
   \<and> totalBufSize sink_adaptive = of_nat 30
   \<and> 2 * (30 + slen (buffer sink_adaptive)) \<le> maxInt
   \<and> adaptive_policy 3 30 25 = (4, 55, 13, True)
   \<and> (\<exists>e'. reset sink_adaptive rt_adaptive = Inr (e', rt_adaptive)
          \<and> bufCount e' = 4 \<and> totalBufSize e' = 55
          \<and> buffer e' = \<lparr>ptr = 0, slen = 0, scap = 32\<rparr>)"
  using adaptive_reset_policy [of sink_adaptive rt_adaptive 3 30]
  by (auto simp: sink_adaptive_def rt_adaptive_def rt0_eq adaptive_policy_def maxInt_num)

text \<open>
  C9. From construction on, over every sequence of calls and ticks, no
  division in \<open>reset\<close> is by zero: the run never panics with "integer divide by
  zero", and in every state it reaches the divisor \<open>bufCount + 1\<close> is at least
  1, so the next reset does not divide by zero either. \<open>bufCount\<close> is a 64-bit
  \<open>int\<close> that goes up by at most one per call, so it is the number of resets
  for as long as a program can run: the sequences are those of fewer than
  \<open>2^63 - 1\<close> calls, before the counter could wrap around.
\<close>

theorem reset_never_divides_by_zero:
  assumes new: "New (Some f) c r0 = Inr ((Some e0, None), r1)"
      and len: "length ops < maxInt"
  shows "run ops e0 r1 \<noteq> Inl IntegerDivideByZero
       \<and> (\<forall>e r. run ops e0 r1 = Inr (e, r) \<longrightarrow>
             1 \<le> sint (bufCount e + 1) \<and> reset e r \<noteq> Inl IntegerDivideByZero)"
proof -
  from New_wf [OF new] have "bufCount e0 = 0" by simp
  then have c0: "counted 0 e0" by (simp add: counted_def)
  from len have "0 + length ops \<le> maxInt" by simp
  from counted_run [OF c0 this, of r1]
  have nodiv: "run ops e0 r1 \<noteq> Inl IntegerDivideByZero"
    and cnt: "\<And>e r. run ops e0 r1 = Inr (e, r) \<Longrightarrow> counted (length ops) e"
    by auto
  have "1 \<le> sint (bufCount e + 1) \<and> reset e r \<noteq> Inl IntegerDivideByZero"
    if "run ops e0 r1 = Inr (e, r)" for e r
  proof -
    from cnt [OF that] obtain j where j: "j \<le> length ops" "bufCount e = of_nat j"
      by (auto simp: counted_def)
    from j(1) len have jm: "Suc j \<le> maxInt" by simp
    have "sint (bufCount e + 1) = int (Suc j)"
      unfolding j(2) using sint_of_nat_goint [OF jm] by (simp add: add.commute)
    moreover have "reset e r \<noteq> Inl IntegerDivideByZero"
      using j(2) jm by (intro reset_not_div0 [of e j]) simp_all
    ultimately show ?thesis by simp
  qed
  with nodiv show ?thesis by blast
qed

theorem reset_never_divides_by_zero_witness:
  "New (Some ()) 0 rt0 = Inr ((Some sink_new0, None), rt_new0)
   \<and> length [OpReset, OpWrite [1, 2, 3], OpReset] < maxInt
   \<and> run [OpReset, OpWrite [1, 2, 3], OpReset] sink_new0 rt_new0 \<noteq> Inl IntegerDivideByZero
   \<and> (\<exists>e r. run [OpReset, OpWrite [1, 2, 3], OpReset] sink_new0 rt_new0 = Inr (e, r)
            \<and> bufCount e = 2 \<and> 1 \<le> sint (bufCount e + 1))"
proof -
  let ?ops = "[OpReset, OpWrite [1, 2, 3], OpReset]"
  have new: "New (Some ()) 0 rt0 = Inr ((Some sink_new0, None), rt_new0)"
    by (simp add: New_def go_make_0 sink_new0_def rt_new0_def rt0_eq word_sless_alt)
  have len: "length ?ops < maxInt" by (simp add: maxInt_num)
  have ex: "\<exists>e r. run ?ops sink_new0 rt_new0 = Inr (e, r) \<and> bufCount e = 2"
    by (simp add: sink_new0_def rt_new0_def rt0_eq sink_defs go_builtin_defs)
  from reset_never_divides_by_zero [OF new len] ex new len
  show ?thesis by auto
qed

section \<open>Appending\<close>

lemma scenario_fixed10:
  "exported (run_new () 10 [OpWrite [1, 2, 3, 4, 5, 6], OpWrite [7, 8, 9, 10, 11, 12]])
     = [[1, 2, 3, 4, 5, 6]]"
  "bytes_after (run_new () 10 [OpWrite [1, 2, 3, 4, 5, 6], OpWrite [7, 8, 9, 10, 11, 12]])
     = Inr [7, 8, 9, 10, 11, 12]"
  by (simp_all add: exported_def bytes_after_def run_defs sink_defs go_builtin_defs)

text \<open>
  C3. In fixed-capacity mode (\<open>bufferMaxSize > 0\<close>), when
  \<open>len(buffer) + len(data)\<close> exceeds \<open>bufferMaxSize\<close>, \<open>Write\<close> first starts
  the exporter on a snapshot of the buffer (one more goroutine, its data the
  prior contents, in an array that is neither the old nor the new buffer), and
  after the call the buffer holds exactly \<open>data\<close>. The buffer is well-formed,
  as it is in every reachable state (\<open>reachable_wf\<close>); the sum of the two
  lengths is within \<open>int\<close> and the length of \<open>data\<close> within what the runtime
  allocates, as the lengths of slices in memory are. In particular, on a sink
  with capacity 10, after \<open>Write\<close> of six bytes and \<open>Write\<close> of six more, the
  exporter was started once, with the first six, and \<open>Bytes()\<close> returns the
  second six.
\<close>

theorem Write_overflow_flushes_first:
  "(\<forall>e r data.
      wf_slice r (buffer e) \<and> 0 < sint (bufferMaxSize e)
      \<and> sint (bufferMaxSize e) < int (slen (buffer e) + length data)
      \<and> slen (buffer e) + length data \<le> maxInt
      \<and> length data \<le> maxAlloc r \<longrightarrow>
      (\<exists>b' r' snap.
         Write data e r = Inr ((of_nat (length data), None), e\<lparr>buffer := b'\<rparr>, r')
         \<and> spawned r' = spawned r @ [(export e, snap)]
         \<and> elems r' snap = elems r (buffer e)
         \<and> ptr snap \<noteq> ptr (buffer e) \<and> ptr snap \<noteq> ptr b'
         \<and> elems r' b' = data))
   \<and> exported (run_new () 10 [OpWrite [1, 2, 3, 4, 5, 6], OpWrite [7, 8, 9, 10, 11, 12]])
        = [[1, 2, 3, 4, 5, 6]]
   \<and> bytes_after (run_new () 10 [OpWrite [1, 2, 3, 4, 5, 6], OpWrite [7, 8, 9, 10, 11, 12]])
        = Inr [7, 8, 9, 10, 11, 12]"
proof -
  have "\<exists>b' r' snap.
         Write data e r = Inr ((of_nat (length data), None), e\<lparr>buffer := b'\<rparr>, r')
         \<and> spawned r' = spawned r @ [(export e, snap)]
         \<and> elems r' snap = elems r (buffer e)
         \<and> ptr snap \<noteq> ptr (buffer e) \<and> ptr snap \<noteq> ptr b'
         \<and> elems r' b' = data"
    if "wf_slice r (buffer e)" "0 < sint (bufferMaxSize e)"
      "sint (bufferMaxSize e) < int (slen (buffer e) + length data)"
      "slen (buffer e) + length data \<le> maxInt"
      "length data \<le> maxAlloc r"
    for e :: "'a Evexi" and r data
    using Write_flushes [OF that] by blast
  then show ?thesis using scenario_fixed10 by blast
qed

theorem Write_overflow_flushes_first_witness:
  "wf_slice rt6 (buffer sink6) \<and> 0 < sint (bufferMaxSize sink6)
   \<and> sint (bufferMaxSize sink6) < int (slen (buffer sink6) + length [7, 8, 9, 10, 11, 12 :: byte])
   \<and> slen (buffer sink6) + length [7, 8, 9, 10, 11, 12 :: byte] \<le> maxInt
   \<and> length [7, 8, 9, 10, 11, 12 :: byte] \<le> maxAlloc rt6
   \<and> run_new () 10 [OpWrite [1, 2, 3, 4, 5, 6]] = Inr (sink6, rt6)
   \<and> elems rt6 (buffer sink6) = [1, 2, 3, 4, 5, 6]
   \<and> (\<exists>b' r' snap.
         Write [7, 8, 9, 10, 11, 12] sink6 rt6 = Inr ((6, None), sink6\<lparr>buffer := b'\<rparr>, r')
         \<and> spawned r' = [((), snap)]
         \<and> elems r' snap = [1, 2, 3, 4, 5, 6]
         \<and> elems r' b' = [7, 8, 9, 10, 11, 12])"
proof -
  have h: "wf_slice rt6 (buffer sink6) \<and> 0 < sint (bufferMaxSize sink6)
    \<and> sint (bufferMaxSize sink6) < int (slen (buffer sink6) + length [7, 8, 9, 10, 11, 12 :: byte])
    \<and> slen (buffer sink6) + length [7, 8, 9, 10, 11, 12 :: byte] \<le> maxInt
    \<and> length [7, 8, 9, 10, 11, 12 :: byte] \<le> maxAlloc rt6"
    by (simp add: wf_slice_def sink6_def sink10_def rt6_def rt0_eq maxInt_num)
  have r: "run_new () 10 [OpWrite [1, 2, 3, 4, 5, 6]] = Inr (sink6, rt6)"
    by (simp add: run_defs sink_defs go_builtin_defs sink6_def sink10_def rt6_def)
  have el: "elems rt6 (buffer sink6) = [1, 2, 3, 4, 5, 6]"
    by (simp add: elems_def array_of_def sink6_def sink10_def rt6_def rt0_eq)
  have sp: "spawned rt6 = []" "export sink6 = ()" by (simp_all add: rt6_def rt0_eq)
  from Write_overflow_flushes_first
  have "\<exists>b' r' snap.
         Write [7, 8, 9, 10, 11, 12] sink6 rt6
           = Inr ((of_nat (length [7, 8, 9, 10, 11, 12 :: byte]), None), sink6\<lparr>buffer := b'\<rparr>, r')
         \<and> spawned r' = spawned rt6 @ [(export sink6, snap)]
         \<and> elems r' snap = elems rt6 (buffer sink6)
         \<and> ptr snap \<noteq> ptr (buffer sink6) \<and> ptr snap \<noteq> ptr b'
         \<and> elems r' b' = [7, 8, 9, 10, 11, 12]"
    using h by blast
  then show ?thesis using h r el sp by auto
qed

text \<open>
  C6. In fixed-capacity mode, \<open>Write\<close> of data longer than \<open>bufferMaxSize\<close>
  returns \<open>len(data)\<close> and no error; the exporter is started exactly once, on
  the prior contents, and the buffer then holds all of \<open>data\<close>, its length
  above \<open>bufferMaxSize\<close>. The data is a slice in memory: its length is within
  what the runtime allocates.
\<close>

theorem oversized_Write_accepted_whole:
  assumes wf: "wf_slice r (buffer e)"
      and fixed: "0 < sint (bufferMaxSize e)"
      and big: "sint (bufferMaxSize e) < int (length data)"
      and fits: "slen (buffer e) + length data \<le> maxInt"
      and mem: "length data \<le> maxAlloc r"
  shows "\<exists>b' r' snap.
           Write data e r = Inr ((of_nat (length data), None), e\<lparr>buffer := b'\<rparr>, r')
           \<and> sint (of_nat (length data) :: goint) = int (length data)
           \<and> spawned r' = spawned r @ [(export e, snap)]
           \<and> elems r' snap = elems r (buffer e)
           \<and> elems r' b' = data
           \<and> slen b' = length data
           \<and> sint (bufferMaxSize e) < int (slen b')"
proof -
  have over: "sint (bufferMaxSize e) < int (slen (buffer e) + length data)"
    using big by simp
  have "length data \<le> maxInt" using fits by simp
  then have "sint (of_nat (length data) :: goint) = int (length data)"
    by (rule sint_of_nat_goint)
  moreover from Write_flushes [OF wf fixed over fits mem] obtain b' r' snap where
    "Write data e r = Inr ((of_nat (length data), None), e\<lparr>buffer := b'\<rparr>, r')"
    "spawned r' = spawned r @ [(export e, snap)]"
    "elems r' snap = elems r (buffer e)"
    "slen b' = length data" "elems r' b' = data"
    by blast
  ultimately show ?thesis using big by (intro exI [of _ b'] exI [of _ r'] exI [of _ snap]) simp
qed

theorem oversized_Write_accepted_whole_witness:
  "wf_slice rt6 (buffer sink6) \<and> 0 < sint (bufferMaxSize sink6)
   \<and> sint (bufferMaxSize sink6) < int (length (replicate 11 (9 :: byte)))
   \<and> slen (buffer sink6) + length (replicate 11 (9 :: byte)) \<le> maxInt
   \<and> length (replicate 11 (9 :: byte)) \<le> maxAlloc rt6
   \<and> (\<exists>b' r' snap.
         Write (replicate 11 9) sink6 rt6 = Inr ((11, None), sink6\<lparr>buffer := b'\<rparr>, r')
         \<and> spawned r' = [((), snap)]
         \<and> elems r' snap = [1, 2, 3, 4, 5, 6]
         \<and> elems r' b' = replicate 11 9
         \<and> slen b' = 11)"
proof -
  have wf: "wf_slice rt6 (buffer sink6)"
    by (simp add: wf_slice_def sink6_def sink10_def rt6_def rt0_eq maxInt_num)
  have fixed: "0 < sint (bufferMaxSize sink6)" by (simp add: sink6_def sink10_def)
  have big: "sint (bufferMaxSize sink6) < int (length (replicate 11 (9 :: byte)))"
    by (simp add: sink6_def sink10_def)
  have fits: "slen (buffer sink6) + length (replicate 11 (9 :: byte)) \<le> maxInt"
    by (simp add: sink6_def sink10_def maxInt_num)
  have mem: "length (replicate 11 (9 :: byte)) \<le> maxAlloc rt6"
    by (simp add: rt6_def rt0_eq)
  have el: "elems rt6 (buffer sink6) = [1, 2, 3, 4, 5, 6]"
    by (simp add: elems_def array_of_def sink6_def sink10_def rt6_def rt0_eq)
  have sp: "spawned rt6 = []" "export sink6 = ()" by (simp_all add: rt6_def rt0_eq)
  from oversized_Write_accepted_whole [OF wf fixed big fits mem]
  show ?thesis using wf fixed big fits mem el sp by auto
qed

text \<open>
  C5. On a sink as \<open>New\<close> returns it, after \<open>Write\<close> of each of \<open>ds\<close> in turn,
  where in fixed-capacity mode the total length is at most \<open>bufferMaxSize\<close> (so
  that no \<open>Write\<close> finds \<open>len(buffer) + len(data)\<close> above it), the exporter
  has not been started, and \<open>Bytes()\<close> returns the concatenation of \<open>ds\<close> in
  a slice whose array is not the buffer's and did not exist before the call;
  the buffer still holds the same bytes, and a later \<open>Write\<close> to the sink does
  not change the bytes of the returned slice. The total length is within
  \<open>int\<close> and within what the runtime allocates, as the length of the buffer
  that holds all of it has to be.
\<close>

theorem Bytes_returns_concatenation:
  assumes new: "New (Some f) c r0 = Inr ((Some e0, None), r1)"
      and nf: "0 < sint c \<longrightarrow> int (length (concat ds)) \<le> sint c"
      and fits: "length (concat ds) \<le> maxInt"
      and mem: "length (concat ds) \<le> maxAlloc r0"
  shows "\<exists>e r b r'. run (map OpWrite ds) e0 r1 = Inr (e, r)
           \<and> spawned r = spawned r0
           \<and> Bytes e r = Inr (b, r')
           \<and> elems r' b = concat ds
           \<and> ptr b \<noteq> ptr (buffer e) \<and> length (arrays r) \<le> ptr b
           \<and> elems r' (buffer e) = concat ds
           \<and> (\<forall>d n e2 r2. Write d e r' = Inr (n, e2, r2) \<longrightarrow> elems r2 b = concat ds)"
proof -
  from New_wf [OF new] have wf0: "wf_slice r1 (buffer e0)" and l0: "slen (buffer e0) = 0"
    and m0: "bufferMaxSize e0 = c" and sp0: "spawned r1 = spawned r0"
    and ma: "maxAlloc r1 = maxAlloc r0"
    by auto
  have nf': "0 < sint (bufferMaxSize e0) \<longrightarrow>
               int (slen (buffer e0) + length (concat ds)) \<le> sint (bufferMaxSize e0)"
    using nf l0 m0 by simp
  have fits': "slen (buffer e0) + length (concat ds) \<le> maxInt"
    using fits l0 by simp
  have mem': "slen (buffer e0) + length (concat ds) \<le> maxAlloc r1"
    using mem l0 ma by simp
  from run_Writes [OF wf0 nf' fits' mem'] obtain b1 r2 where
    R: "run (map OpWrite ds) e0 r1 = Inr (e0\<lparr>buffer := b1\<rparr>, r2)"
    and wf1: "wf_slice r2 b1" and el1: "elems r2 b1 = elems r1 (buffer e0) @ concat ds"
    and sp1: "spawned r2 = spawned r1"
    by blast
  let ?e = "e0\<lparr>buffer := b1\<rparr>"
  let ?b = "\<lparr>ptr = length (arrays r2), slen = slen b1, scap = slen b1\<rparr>"
  let ?r' = "r2\<lparr>arrays := arrays r2 @ [elems r2 b1]\<rparr>"
  have wf1': "wf_slice r2 (buffer ?e)" using wf1 by simp
  have B: "Bytes ?e r2 = Inr (?b, ?r')"
    unfolding Bytes_def using bytes_wf [OF wf1'] by simp
  have el: "elems r2 b1 = concat ds" using el1 l0 by (simp add: elems_empty)
  have p1: "ptr b1 < length (arrays r2)" using wf1 by (simp add: wf_slice_def)
  have ls: "length (elems r2 b1) = slen b1" using wf1 by (rule elems_length)
  have c1: "elems ?r' ?b = concat ds"
    unfolding elems_newest using ls el by simp
  have c2: "elems ?r' b1 = concat ds"
    using elems_older [OF p1] el by simp
  have wf': "wf_slice ?r' (buffer ?e)" using wf1 by (simp add: wf_slice_older)
  have c3: "elems r3 ?b = concat ds" if W: "Write d ?e ?r' = Inr (n, e3, r3)" for d n e3 r3
  proof -
    have "ptr ?b < length (arrays ?r')" "ptr ?b \<noteq> ptr (buffer ?e)" using p1 by simp_all
    from Write_keeps_others [OF wf' W this]
    have "ptr ?b < length (arrays r3)" "arrays r3 ! ptr ?b = arrays ?r' ! ptr ?b" by simp_all
    then have "elems r3 ?b = elems ?r' ?b" by (intro elems_same_array) simp_all
    with c1 show ?thesis by simp
  qed
  have "run (map OpWrite ds) e0 r1 = Inr (?e, r2) \<and> spawned r2 = spawned r0
      \<and> Bytes ?e r2 = Inr (?b, ?r') \<and> elems ?r' ?b = concat ds
      \<and> ptr ?b \<noteq> ptr (buffer ?e) \<and> length (arrays r2) \<le> ptr ?b
      \<and> elems ?r' (buffer ?e) = concat ds
      \<and> (\<forall>d n e3 r3. Write d ?e ?r' = Inr (n, e3, r3) \<longrightarrow> elems r3 ?b = concat ds)"
    using R B c1 c2 p1 sp1 sp0 c3 by simp
  then show ?thesis by blast
qed

theorem Bytes_returns_concatenation_witness:
  "New (Some ()) 10 rt0 = Inr ((Some sink10, None), rt10)
   \<and> 0 < sint (10 :: goint)
   \<and> int (length (concat [[1, 2, 3], [4, 5 :: byte]])) \<le> sint (10 :: goint)
   \<and> length (concat [[1, 2, 3], [4, 5 :: byte]]) \<le> maxInt
   \<and> length (concat [[1, 2, 3], [4, 5 :: byte]]) \<le> maxAlloc (rt0 :: unit rt)
   \<and> (\<exists>e r b r'. run (map OpWrite [[1, 2, 3], [4, 5]]) sink10 rt10 = Inr (e, r)
         \<and> Bytes e r = Inr (b, r')
         \<and> elems r' b = [1, 2, 3, 4, 5]
         \<and> ptr b \<noteq> ptr (buffer e))"
proof -
  have new: "New (Some ()) 10 rt0 = Inr ((Some sink10, None), rt10)"
    by (simp add: New_def go_make_0 sink10_def rt10_def rt0_eq word_sless_alt)
  have nf: "0 < sint (10 :: goint) \<longrightarrow>
      int (length (concat [[1, 2, 3], [4, 5 :: byte]])) \<le> sint (10 :: goint)"
    by simp
  have fits: "length (concat [[1, 2, 3], [4, 5 :: byte]]) \<le> maxInt"
    by (simp add: maxInt_num)
  have mem: "length (concat [[1, 2, 3], [4, 5 :: byte]]) \<le> maxAlloc (rt0 :: unit rt)"
    by (simp add: rt0_eq)
  from Bytes_returns_concatenation [OF new nf fits mem] new fits mem
  show ?thesis by auto
qed

section \<open>The disk exporter's file name\<close>

text \<open>
  C10. The callback \<open>ExportToDisk\<close> returns, called with non-empty data, makes
  one \<open>WriteFile\<close> call, of that data with mode 0644, and the path is the
  directory (the given path, or the working directory when the path is empty),
  the path separator, the prefix, an underscore, the current time formatted
  with the layout \<open>2006_01_02-15_04_05\<close>, and \<open>.txt\<close>. Called with empty data it
  makes no call at all.
\<close>

theorem disk_exporter_file_name:
  assumes "ExportToDisk env path fileNamePrefix = (Some cb, None)"
  shows "(logData \<noteq> [] \<longrightarrow>
            writes (call_closure env cb logData) =
              [((if path = [] then (case Getwd env of Inr d \<Rightarrow> d | Inl _ \<Rightarrow> []) else path)
                  @ [PathSeparator env] @ fileNamePrefix @ ''_''
                  @ Format env (Now env) ''2006_01_02-15_04_05'' @ ''.txt'',
                logData, 420)])
       \<and> (logData = [] \<longrightarrow> call_closure env cb logData = [])"
  using assms
  by (auto simp: ExportToDisk_def Sprintf_path_def fileDateFormat_def Let_def
           split: if_splits sum.splits option.splits)

theorem disk_exporter_file_name_witness:
  "ExportToDisk
     \<lparr>PathSeparator = CHR ''/'', Getwd = Inr ''/home/app'', Now = (),
      Format = (\<lambda>t layout. if layout = ''2006_01_02-15_04_05''
                             then ''2024_03_09-07_05_01'' else layout),
      WriteFile_error = (\<lambda>p. None)\<rparr> ''/var/log'' ''app''
     = (Some (DiskExporter ''/var/log'' ''app''), None)
   \<and> writes (call_closure
        \<lparr>PathSeparator = CHR ''/'', Getwd = Inr ''/home/app'', Now = (),
         Format = (\<lambda>t layout. if layout = ''2006_01_02-15_04_05''
                                then ''2024_03_09-07_05_01'' else layout),
         WriteFile_error = (\<lambda>p. None)\<rparr> (DiskExporter ''/var/log'' ''app'') [104, 105])
     = [(''/var/log/app_2024_03_09-07_05_01.txt'', [104, 105], 420)]
   \<and> call_closure
        \<lparr>PathSeparator = CHR ''/'', Getwd = Inr ''/home/app'', Now = (),
         Format = (\<lambda>t layout. if layout = ''2006_01_02-15_04_05''
                                then ''2024_03_09-07_05_01'' else layout),
         WriteFile_error = (\<lambda>p. None)\<rparr> (DiskExporter ''/var/log'' ''app'') []
     = []"
proof -
  let ?env = "\<lparr>PathSeparator = CHR ''/'', Getwd = Inr ''/home/app'', Now = (),
      Format = (\<lambda>t layout. if layout = ''2006_01_02-15_04_05''
                             then ''2024_03_09-07_05_01'' else layout),
      WriteFile_error = (\<lambda>p. None)\<rparr>"
  have h: "ExportToDisk ?env ''/var/log'' ''app'' = (Some (DiskExporter ''/var/log'' ''app''), None)"
    by (simp add: ExportToDisk_def)
  show ?thesis
    using h disk_exporter_file_name [OF h, of "[104, 105]"]
      disk_exporter_file_name [OF h, of "[]"]
    by simp
qed

end
